theory Spec2Isabelle
  imports Complex_Main "HOL-Library.Sublist"
begin

section \<open>Runtime values\<close>

text \<open>
  The validator engine of \<^verbatim>\<open>src/index.ts\<close> checks already deserialised values. The
  model covers the values of that data model: \<^verbatim>\<open>undefined\<close>, \<^verbatim>\<open>null\<close>, booleans, numbers,
  strings, arrays and plain objects. A number is \<^verbatim>\<open>NaN\<close>, an infinity or a finite value;
  the engine only inspects numbers through \<^verbatim>\<open>typeof\<close>, \<^verbatim>\<open>isNaN\<close>, \<^verbatim>\<open>Number.isInteger\<close>,
  the safe-integer bounds and equality, never through arithmetic, so a finite number is
  a rational here. An object is the list of its own enumerable string-keyed properties in
  the order \<^verbatim>\<open>Object.keys\<close> reports them. Reading a property that is not an own property
  yields \<^verbatim>\<open>undefined\<close>: members inherited from the built-in prototypes are outside the
  model, as are functions, symbols and objects with accessors used as input values.
\<close>

datatype jsnum = NaN | PosInf | NegInf | Fin rat

datatype jsval = VUndefined | VNull | VBool bool | VNum jsnum | VStr string
  | VArr "jsval list" | VObj "(string \<times> jsval) list"

text \<open>What a JavaScript \<^verbatim>\<open>throw\<close> carries: the engine's own property reads on
  \<^verbatim>\<open>null\<close> or \<^verbatim>\<open>undefined\<close> raise a \<^verbatim>\<open>TypeError\<close>; caller-supplied functions may throw
  any value.\<close>

datatype jsexn = TypeError | Thrown jsval

subsection \<open>Decimal rendering of array indices\<close>

definition digits :: string where
  "digits = ''0123456789''"

definition digitChar :: "nat \<Rightarrow> char" where
  "digitChar n = digits ! n"

fun showNat :: "nat \<Rightarrow> string" where
  "showNat n = (if n < 10 then [digitChar n] else showNat (n div 10) @ [digitChar (n mod 10)])"

declare showNat.simps [simp del]

text \<open>The value of a decimal digit; any other character counts as zero, which
  \<open>isIndexKey\<close> below then rejects.\<close>

definition digitVal :: "char \<Rightarrow> nat" where
  "digitVal c = (case map_of (zip digits [0, 1, 2, 3, 4, 5, 6, 7, 8, 9]) c of
                  Some d \<Rightarrow> d | None \<Rightarrow> 0)"

definition parseNat :: "string \<Rightarrow> nat" where
  "parseNat k = foldl (\<lambda>acc c. 10 * acc + digitVal c) 0 k"

text \<open>A property name is an array index when it is the canonical decimal form of a natural
  number below \<open>2^32 - 1\<close>; objects list such keys first, in ascending numeric order.\<close>

definition isIndexKey :: "string \<Rightarrow> bool" where
  "isIndexKey k = (showNat (parseNat k) = k \<and> parseNat k < 4294967295)"

subsection \<open>Property access\<close>

definition numOfNat :: "nat \<Rightarrow> jsval" where
  "numOfNat n = VNum (Fin (of_nat n))"

text \<open>\<^verbatim>\<open>x == null\<close> holds of \<^verbatim>\<open>null\<close> and \<^verbatim>\<open>undefined\<close> only.\<close>

definition isNullish :: "jsval \<Rightarrow> bool" where
  "isNullish x = (x = VNull \<or> x = VUndefined)"

text \<open>\<^verbatim>\<open>Object.keys(x)\<close>: a \<^verbatim>\<open>TypeError\<close> on \<^verbatim>\<open>null\<close> and \<^verbatim>\<open>undefined\<close>, the index keys
  of an array or string, nothing for a boolean or number.\<close>

fun objectKeys :: "jsval \<Rightarrow> jsexn + string list" where
  "objectKeys VUndefined = Inl TypeError"
| "objectKeys VNull = Inl TypeError"
| "objectKeys (VObj kvs) = Inr (map fst kvs)"
| "objectKeys (VArr xs) = Inr (map showNat [0..<length xs])"
| "objectKeys (VStr s) = Inr (map showNat [0..<length s])"
| "objectKeys (VBool b) = Inr []"
| "objectKeys (VNum n) = Inr []"

definition lookupOr :: "(string \<times> jsval) list \<Rightarrow> string \<Rightarrow> jsval" where
  "lookupOr kvs k = (case map_of kvs k of Some v \<Rightarrow> v | None \<Rightarrow> VUndefined)"

text \<open>\<^verbatim>\<open>x[k]\<close> for a string key, on a value that is neither \<^verbatim>\<open>null\<close> nor \<^verbatim>\<open>undefined\<close>.\<close>

fun getProp :: "jsval \<Rightarrow> string \<Rightarrow> jsval" where
  "getProp (VObj kvs) k = lookupOr kvs k"
| "getProp (VArr xs) k =
     (if k = ''length'' then numOfNat (length xs)
      else lookupOr (zip (map showNat [0..<length xs]) xs) k)"
| "getProp (VStr s) k =
     (if k = ''length'' then numOfNat (length s)
      else lookupOr (zip (map showNat [0..<length s]) (map (\<lambda>c. VStr [c]) s)) k)"
| "getProp x k = VUndefined"

text \<open>\<^verbatim>\<open>x.length\<close>: the read itself throws on \<^verbatim>\<open>null\<close> and \<^verbatim>\<open>undefined\<close>.\<close>

fun jsLength :: "jsval \<Rightarrow> jsexn + jsval" where
  "jsLength VUndefined = Inl TypeError"
| "jsLength VNull = Inl TypeError"
| "jsLength x = Inr (getProp x ''length'')"

text \<open>\<^verbatim>\<open>x[ix]\<close> for a numeric index.\<close>

fun getIndex :: "jsval \<Rightarrow> nat \<Rightarrow> jsval" where
  "getIndex (VArr xs) ix = (if ix < length xs then xs ! ix else VUndefined)"
| "getIndex (VStr s) ix = (if ix < length s then VStr [s ! ix] else VUndefined)"
| "getIndex x ix = getProp x (showNat ix)"

fun numGtZero :: "jsnum \<Rightarrow> bool" where
  "numGtZero (Fin q) = (0 < q)"
| "numGtZero PosInf = True"
| "numGtZero n = False"

text \<open>\<^verbatim>\<open>v > 0\<close>. On a number the comparison is direct; \<^verbatim>\<open>undefined\<close> becomes \<^verbatim>\<open>NaN\<close>,
  \<^verbatim>\<open>null\<close> becomes \<open>0\<close>, a boolean \<open>0\<close> or \<open>1\<close>. A string, array or object operand is
  first converted by the host's \<^verbatim>\<open>ToNumber\<close>, which is not part of the repository: it is
  the parameter \<open>toNumber\<close> of the model.\<close>

fun gtZero :: "(jsval \<Rightarrow> jsnum) \<Rightarrow> jsval \<Rightarrow> bool" where
  "gtZero toNumber (VNum n) = numGtZero n"
| "gtZero toNumber VUndefined = False"
| "gtZero toNumber VNull = False"
| "gtZero toNumber (VBool b) = b"
| "gtZero toNumber v = numGtZero (toNumber v)"

definition MAX_SAFE_INTEGER :: rat where
  "MAX_SAFE_INTEGER = 9007199254740991"

text \<open>\<^verbatim>\<open>x >= Number.MIN_SAFE_INTEGER && x <= Number.MAX_SAFE_INTEGER && Number.isInteger(x)\<close>:
  \<^verbatim>\<open>Number.isInteger\<close> is false of everything that is not a number.\<close>

fun isSafeInteger :: "jsval \<Rightarrow> bool" where
  "isSafeInteger (VNum (Fin q)) =
     (- MAX_SAFE_INTEGER \<le> q \<and> q \<le> MAX_SAFE_INTEGER \<and> of_int \<lfloor>q\<rfloor> = q)"
| "isSafeInteger x = False"

fun isArray :: "jsval \<Rightarrow> bool" where
  "isArray (VArr xs) = True"
| "isArray x = False"

fun isBoolean :: "jsval \<Rightarrow> bool" where
  "isBoolean (VBool b) = True"
| "isBoolean x = False"

fun isString :: "jsval \<Rightarrow> bool" where
  "isString (VStr s) = True"
| "isString x = False"

text \<open>\<^verbatim>\<open>typeof x == "number" && !isNaN(x)\<close>.\<close>

fun isNumberNotNaN :: "jsval \<Rightarrow> bool" where
  "isNumberNotNaN (VNum NaN) = False"
| "isNumberNotNaN (VNum n) = True"
| "isNumberNotNaN x = False"

subsection \<open>Building an object from its entries\<close>

text \<open>Setting property \<open>k\<close>: an existing key keeps its place; a new index key goes among the
  index keys in numeric order, any other new key at the end.\<close>

fun objSet :: "(string \<times> jsval) list \<Rightarrow> string \<Rightarrow> jsval \<Rightarrow> (string \<times> jsval) list" where
  "objSet [] k v = [(k, v)]"
| "objSet ((k', v') # rest) k v =
     (if k' = k then (k, v) # rest
      else if isIndexKey k \<and> (\<not> isIndexKey k' \<or> parseNat k < parseNat k') \<and> k \<notin> set (map fst rest)
        then (k, v) # (k', v') # rest
      else (k', v') # objSet rest k v)"

text \<open>One entry \<^verbatim>\<open>[k, y]\<close> of \<^verbatim>\<open>Object.fromEntries\<close>; the engine only passes pairs whose
  first component is a string.\<close>

definition insertEntry :: "(string \<times> jsval) list \<Rightarrow> jsval \<Rightarrow> (string \<times> jsval) list" where
  "insertEntry acc e = objSet acc (case getIndex e 0 of VStr k \<Rightarrow> k | _ \<Rightarrow> []) (getIndex e 1)"

fun fromEntries :: "jsval \<Rightarrow> jsval" where
  "fromEntries (VArr es) = VObj (foldl insertEntry [] es)"
| "fromEntries x = VObj []"

section \<open>Results and errors\<close>

datatype pstep = PStr string | PNum jsnum

type_synonym Path = "pstep list"

datatype ErrorDetails = Found jsval | Expected "jsval list" | Unexpected "jsval list"
  | Caught jsexn

datatype VError = VError (path: Path) (message: string) (details: "ErrorDetails option")

fun under :: "VError \<Rightarrow> Path \<Rightarrow> VError" where
  "under (VError ep m d) p = VError (p @ ep) m d"

text \<open>The class \<^verbatim>\<open>Result\<close> carries either a value or a list of errors, told apart by its
  flag \<^verbatim>\<open>ok\<close>; the field that the constructor leaves unset reads as \<^verbatim>\<open>undefined\<close>.\<close>

datatype Result = Success jsval | Failure "VError list"

fun resultOk :: "Result \<Rightarrow> bool" where
  "resultOk (Success v) = True"
| "resultOk (Failure es) = False"

fun resultValue :: "Result \<Rightarrow> jsval" where
  "resultValue (Success v) = v"
| "resultValue (Failure es) = VUndefined"

fun resultErrors :: "Result \<Rightarrow> VError list" where
  "resultErrors (Success v) = []"
| "resultErrors (Failure es) = es"

fun mapResult :: "Result \<Rightarrow> (jsval \<Rightarrow> jsval) \<Rightarrow> Result" where
  "mapResult (Success v) f = Success (f v)"
| "mapResult (Failure es) f = Failure es"

fun atPath :: "Result \<Rightarrow> Path \<Rightarrow> Result" where
  "atPath r [] = r"
| "atPath (Success v) p = Success v"
| "atPath (Failure es) p = Failure (map (\<lambda>e. under e p) es)"

definition ok :: "jsval \<Rightarrow> Result" where
  "ok v = Success v"

text \<open>\<^verbatim>\<open>fail\<close> with a single message and a path given as an array, which is how the engine
  itself always calls it.\<close>

definition fail :: "string \<Rightarrow> Path \<Rightarrow> ErrorDetails option \<Rightarrow> Result" where
  "fail error p d = Failure [VError p error d]"

definition gather :: "Result list \<Rightarrow> Result" where
  "gather results =
     (let errors = filter (\<lambda>r. \<not> resultOk r) results
      in if length errors > 0
         then Failure (concat (map resultErrors errors))
         else Success (VArr (map resultValue results)))"

text \<open>A compiled check \<^verbatim>\<open>FnV\<close> maps a value to a \<^verbatim>\<open>Result\<close>, or throws.\<close>

type_synonym FnV = "jsval \<Rightarrow> jsexn + Result"

definition extendPath :: "Path \<Rightarrow> pstep \<Rightarrow> Path" where
  "extendPath p prop = p @ [prop]"

section \<open>Schemas\<close>

text \<open>A caller-supplied transform returns a \<^verbatim>\<open>Result\<close>, returns something else, or throws.
  A caller-supplied predicate returns a boolean or throws.\<close>

datatype fnret = Throws jsexn | Returns jsval | ReturnsResult Result

datatype BasicValidator = BArray | BBoolean | BNumber | BInteger | BString | BNonEmpty

text \<open>The steps of \<^verbatim>\<open>ValidatorStep\<close>, as their TypeScript types declare them, and a
  sequence of validators. The type \<^verbatim>\<open>Validator\<close> only admits a sequence of steps, but
  \<^verbatim>\<open>compile\<close> flattens its input one level, so sequences may nest here. The engine also
  guards against values that these types exclude (a basic name that is none of the six, enum
  options that are not an array, a step without a \<^verbatim>\<open>type\<close> tag); no schema of this
  datatype reaches those guards, except that a nested sequence standing where a step is
  expected has no \<^verbatim>\<open>type\<close> tag and is not a recognised step.\<close>

datatype Validator =
    Basic BasicValidator
  | Pred "jsval \<Rightarrow> jsexn + bool" string "ErrorDetails option"
  | Fn "jsval \<Rightarrow> fnret"
  | Optional Validator jsval
  | Enum "jsval list"
  | Obj "(string \<times> Validator) list"
  | Indexed "Validator list"
  | OneOf "Validator list"
  | Chain "Validator list"

datatype ValidatorType = TBasic BasicValidator | TOptional | TEnum | TPred | TFn | TObj
  | TIndexed | TOneOf

text \<open>Compilation throws an \<^verbatim>\<open>Error\<close> whose text \<^verbatim>\<open>printError\<close> renders from a path, a
  message and details. The model keeps one constructor per message, with the data the
  message is rendered from. \<open>Uncaught\<close> is an exception of a check that escapes while the
  fallback of an optional step is validated during compilation.\<close>

datatype cerror =
    EmptyChain Path
  | MissingPredicateMessage Path
  | BadFallback Path "VError list"
  | NonLiteralOptions Path "jsval list"
  | UnknownStepType Path
  | UnrecognisedStep Path
  | RefinementAtStart Path ValidatorType
  | CannotFollow Path ValidatorType ValidatorType
  | Uncaught jsexn

text \<open>\<^verbatim>\<open>xs.map(f)\<close> where \<open>f\<close> may throw: the first exception ends the traversal.\<close>

fun mapE :: "('a \<Rightarrow> 'e + 'b) \<Rightarrow> 'a list \<Rightarrow> 'e + 'b list" where
  "mapE f [] = Inr []"
| "mapE f (x # xs) =
     (case f x of
        Inl e \<Rightarrow> Inl e
      | Inr y \<Rightarrow> (case mapE f xs of Inl e \<Rightarrow> Inl e | Inr ys \<Rightarrow> Inr (y # ys)))"

lemma mapE_cong [fundef_cong]:
  "xs = ys \<Longrightarrow> (\<And>x. x \<in> set ys \<Longrightarrow> f x = g x) \<Longrightarrow> mapE f xs = mapE g ys"
  by (induction ys arbitrary: xs) (auto split: sum.splits)

subsection \<open>Basic validators\<close>

definition basic :: "(jsval \<Rightarrow> jsexn + bool) \<Rightarrow> string \<Rightarrow> Path \<Rightarrow> ErrorDetails option \<Rightarrow> FnV" where
  "basic f err p d =
     (\<lambda>x. case f x of Inl e \<Rightarrow> Inl e | Inr b \<Rightarrow> Inr (if b then ok x else fail err p d))"

definition lengthGtZero :: "(jsval \<Rightarrow> jsnum) \<Rightarrow> jsval \<Rightarrow> jsexn + bool" where
  "lengthGtZero toNumber x =
     (case jsLength x of Inl e \<Rightarrow> Inl e | Inr len \<Rightarrow> Inr (gtZero toNumber len))"

fun compileBasic :: "(jsval \<Rightarrow> jsnum) \<Rightarrow> BasicValidator \<Rightarrow> Path \<Rightarrow> FnV" where
  "compileBasic toNumber BArray p = basic (\<lambda>x. Inr (isArray x)) ''Not an array'' p None"
| "compileBasic toNumber BBoolean p = basic (\<lambda>x. Inr (isBoolean x)) ''Not a boolean'' p None"
| "compileBasic toNumber BNumber p = basic (\<lambda>x. Inr (isNumberNotNaN x)) ''Not a number'' p None"
| "compileBasic toNumber BInteger p = basic (\<lambda>x. Inr (isSafeInteger x)) ''Not an integer'' p None"
| "compileBasic toNumber BString p = basic (\<lambda>x. Inr (isString x)) ''Not a string'' p None"
| "compileBasic toNumber BNonEmpty p = basic (lengthGtZero toNumber) ''Is empty'' p None"

subsection \<open>Predicate and function validators\<close>

definition compilePredicate ::
  "(jsval \<Rightarrow> jsexn + bool) \<Rightarrow> string \<Rightarrow> ErrorDetails option \<Rightarrow> Path \<Rightarrow> cerror + FnV" where
  "compilePredicate fn err d p =
     (if err = [] then Inl (MissingPredicateMessage p)
      else Inr (\<lambda>x. case fn x of
                  Inr b \<Rightarrow> Inr (if b then ok x else fail err p d)
                | Inl e \<Rightarrow> Inr (fail ''Predicate function threw an error'' p (Some (Caught e)))))"

definition compileFunction :: "(jsval \<Rightarrow> fnret) \<Rightarrow> Path \<Rightarrow> FnV" where
  "compileFunction fn p =
     (\<lambda>x. case fn x of
        ReturnsResult r \<Rightarrow> Inr (atPath r p)
      | Returns v \<Rightarrow> Inr (fail ''Validation function did not return a `Result`'' p (Some (Found v)))
      | Throws e \<Rightarrow> Inr (fail ''Validation function threw an error'' p (Some (Caught e))))"

subsection \<open>Step types and compatibility\<close>

text \<open>\<^verbatim>\<open>stepType\<close> reads the tag of a step. An array has no \<^verbatim>\<open>type\<close> property, so a
  sequence in the place of a step is the error "Cannot determine type of validator step".\<close>

fun stepType :: "Validator \<Rightarrow> Path \<Rightarrow> cerror + ValidatorType" where
  "stepType (Basic b) p = Inr (TBasic b)"
| "stepType (Fn f) p = Inr TFn"
| "stepType (Pred f e d) p = Inr TPred"
| "stepType (Optional i fb) p = Inr TOptional"
| "stepType (Enum os) p = Inr TEnum"
| "stepType (Obj fs) p = Inr TObj"
| "stepType (Indexed es) p = Inr TIndexed"
| "stepType (OneOf bs) p = Inr TOneOf"
| "stepType (Chain vs) p = Inl (UnknownStepType p)"

text \<open>\<^verbatim>\<open>isOptional\<close> follows the first element of a sequence; the first element of an empty
  sequence is \<^verbatim>\<open>undefined\<close>, whose type cannot be determined.\<close>

fun isOptional :: "Validator \<Rightarrow> Path \<Rightarrow> cerror + bool" where
  "isOptional (Chain []) p = Inl (UnknownStepType p)"
| "isOptional (Chain (v # vs)) p = isOptional v p"
| "isOptional v p = (case stepType v p of Inl e \<Rightarrow> Inl e | Inr t \<Rightarrow> Inr (t = TOptional))"

fun isCompatible :: "ValidatorType \<Rightarrow> ValidatorType \<Rightarrow> bool" where
  "isCompatible x y =
     (if x = TPred \<or> y = TPred then True
      else if x = TFn \<or> y = TFn then True
      else if x = TEnum then y = TEnum
      else if x = TObj then y = TObj
      else if x = TBasic BArray \<and> y = TIndexed then True
      else if (x = TBasic BString \<or> x = TBasic BArray) \<and> y = TBasic BNonEmpty then True
      else if x = TBasic BNumber \<or> y = TBasic BInteger then True
      else False)"

subsection \<open>Enum\<close>

fun isLiteral :: "jsval \<Rightarrow> bool" where
  "isLiteral (VStr s) = True"
| "isLiteral (VNum n) = True"
| "isLiteral (VBool b) = True"
| "isLiteral v = False"

text \<open>\<^verbatim>\<open>options.includes(x)\<close> compares by SameValueZero, which on literals is equality of
  values.\<close>

definition compileEnum :: "jsval list \<Rightarrow> Path \<Rightarrow> cerror + FnV" where
  "compileEnum options p =
     (let badOptions = filter (\<lambda>v. \<not> isLiteral v) options
      in if length badOptions > 0 then Inl (NonLiteralOptions p badOptions)
         else Inr (basic (\<lambda>x. Inr (x \<in> set options)) ''Unexpected value'' p (Some (Expected options))))"

subsection \<open>The checks that the composite validators return\<close>

text \<open>The closure \<^verbatim>\<open>x => x == null ? ok(validatedFallback.value) : v(x)\<close> of
  \<^verbatim>\<open>compileOptional\<close>.\<close>

definition optionalCheck :: "Result \<Rightarrow> FnV \<Rightarrow> FnV" where
  "optionalCheck validatedFallback v =
     (\<lambda>x. if isNullish x then Inr (ok (resultValue validatedFallback)) else v x)"

text \<open>The closure that \<^verbatim>\<open>compileObject\<close> returns.\<close>

definition objectCheck ::
  "string list \<Rightarrow> string list \<Rightarrow> (string \<times> FnV) list \<Rightarrow> Path \<Rightarrow> FnV" where
  "objectCheck expectedKeys requiredKeys propValidators p =
     (\<lambda>x. case objectKeys x of
        Inl e \<Rightarrow> Inl e
      | Inr keys \<Rightarrow>
         (let missingKeys = filter (\<lambda>k. k \<notin> set keys) requiredKeys in
          if length missingKeys > 0
          then Inr (fail ''Missing expected properties'' p (Some (Expected (map VStr missingKeys))))
          else
           (let unexpectedKeys = filter (\<lambda>k. k \<notin> set expectedKeys) keys in
            if length unexpectedKeys > 0
            then Inr (fail ''Found unexpected properties'' p
                        (Some (Unexpected (map VStr unexpectedKeys))))
            else
             (case mapE (\<lambda>(k, v). case v (getProp x k) of
                                     Inl e \<Rightarrow> Inl e
                                   | Inr r \<Rightarrow> Inr (mapResult r (\<lambda>y. VArr [VStr k, y])))
                        propValidators of
                Inl e \<Rightarrow> Inl e
              | Inr rs \<Rightarrow> Inr (mapResult (gather rs) fromEntries)))))"

text \<open>The closure that \<^verbatim>\<open>compileIndexed\<close> returns.\<close>

definition indexedCheck :: "nat \<Rightarrow> FnV list \<Rightarrow> string \<Rightarrow> Path \<Rightarrow> FnV" where
  "indexedCheck expectedLength indexedValidators err p =
     (\<lambda>x. case jsLength x of
        Inl e \<Rightarrow> Inl e
      | Inr len \<Rightarrow>
         if len \<noteq> numOfNat expectedLength then Inr (fail err p (Some (Found len)))
         else (case mapE (\<lambda>(ix, v). v (getIndex x ix)) (enumerate 0 indexedValidators) of
                 Inl e \<Rightarrow> Inl e
               | Inr rs \<Rightarrow> Inr (gather rs)))"

text \<open>The loop of \<^verbatim>\<open>compileOneOf\<close> over the compiled branches, with its list of errors.\<close>

fun oneOfLoop :: "FnV list \<Rightarrow> jsval \<Rightarrow> VError list \<Rightarrow> jsexn + Result" where
  "oneOfLoop [] x errors = Inr (Failure errors)"
| "oneOfLoop (v # vs) x errors =
     (case v x of
        Inl e \<Rightarrow> Inl e
      | Inr result \<Rightarrow>
          if resultOk result then Inr result
          else oneOfLoop vs x (errors @ resultErrors result))"

definition oneOfCheck :: "FnV list \<Rightarrow> FnV" where
  "oneOfCheck vs = (\<lambda>x. oneOfLoop vs x [])"

text \<open>The closure of \<^verbatim>\<open>compileChain\<close>:
  \<^verbatim>\<open>x => compiledSteps.reduce((result, v) => result.ok ? v(result.value) : result, ok(x))\<close>.\<close>

definition chainCheck :: "FnV list \<Rightarrow> FnV" where
  "chainCheck compiledSteps =
     (\<lambda>x. foldl (\<lambda>result v. case result of
                     Inl e \<Rightarrow> Inl e
                   | Inr r \<Rightarrow> if resultOk r then v (resultValue r) else Inr r)
                 (Inr (ok x)) compiledSteps)"

subsection \<open>Grouping and merging\<close>

text \<open>\<^verbatim>\<open>group\<close> cuts a list into maximal runs whose neighbours satisfy \<open>f\<close>. The inner
  \<^verbatim>\<open>while\<close> loop, which extends the run that ends in \<open>y\<close>, is \<open>takeRun\<close>.\<close>

fun takeRun :: "('a \<Rightarrow> 'a \<Rightarrow> bool) \<Rightarrow> 'a \<Rightarrow> 'a list \<Rightarrow> 'a list \<times> 'a list" where
  "takeRun f y [] = ([], [])"
| "takeRun f y (x # xs) =
     (if f y x then (x # fst (takeRun f x xs), snd (takeRun f x xs))
      else ([], x # xs))"

lemma takeRun_length: "length (snd (takeRun f y xs)) \<le> length xs"
  by (induction xs arbitrary: y) (auto simp: le_SucI)

function group :: "'a list \<Rightarrow> ('a \<Rightarrow> 'a \<Rightarrow> bool) \<Rightarrow> 'a list list" where
  "group [] f = []"
| "group (x # xs) f = (x # fst (takeRun f x xs)) # group (snd (takeRun f x xs)) f"
  by pat_completeness auto
termination
  by (relation "measure (\<lambda>(xs, f). length xs)") (auto simp: takeRun_length less_Suc_eq_le)

fun objFields :: "Validator \<Rightarrow> (string \<times> Validator) list" where
  "objFields (Obj fs) = fs"
| "objFields v = []"

fun enumOptions :: "Validator \<Rightarrow> jsval list" where
  "enumOptions (Enum os) = os"
| "enumOptions v = []"

definition objectMerger :: "Validator list \<Rightarrow> Validator" where
  "objectMerger vs = Obj (concat (map objFields vs))"

definition enumMerger :: "Validator list \<Rightarrow> Validator" where
  "enumMerger vs = Enum (concat (map enumOptions vs))"

fun mergers :: "ValidatorType \<Rightarrow> (Validator list \<Rightarrow> Validator) option" where
  "mergers TObj = Some objectMerger"
| "mergers TEnum = Some enumMerger"
| "mergers t = None"

text \<open>\<^verbatim>\<open>isRefinement\<close> compares with \<^verbatim>\<open>==\<close>. On a step that is a string this is equality
  with \<^verbatim>\<open>"non-empty"\<close> or \<^verbatim>\<open>"integer"\<close>. An array operand is first converted to the string
  that joins its elements with commas, so a sequence of exactly one element compares as
  that element does; no other step converts to either name.\<close>

fun isRefinement :: "Validator \<Rightarrow> bool" where
  "isRefinement (Basic b) = (b = BNonEmpty \<or> b = BInteger)"
| "isRefinement (Chain [v]) = isRefinement v"
| "isRefinement v = False"

definition checkStart :: "Validator \<Rightarrow> Path \<Rightarrow> cerror + unit" where
  "checkStart v p =
     (if \<not> isRefinement v then Inr ()
      else (case stepType v p of Inl e \<Rightarrow> Inl e | Inr t \<Rightarrow> Inl (RefinementAtStart p t)))"

text \<open>The three passes of \<^verbatim>\<open>compileChain\<close> before the steps are compiled: \<^verbatim>\<open>typed\<close>,
  \<^verbatim>\<open>groups\<close> and \<^verbatim>\<open>mergedSteps\<close>.\<close>

definition typedSteps :: "Validator list \<Rightarrow> Path \<Rightarrow> cerror + (ValidatorType \<times> Validator) list" where
  "typedSteps vs p =
     mapE (\<lambda>v. case stepType v p of Inl e \<Rightarrow> Inl e | Inr t \<Rightarrow> Inr (t, v)) vs"

definition groupSteps :: "(ValidatorType \<times> Validator) list \<Rightarrow> (ValidatorType \<times> Validator list) list" where
  "groupSteps typed =
     map (\<lambda>g. (fst (hd g), map snd g)) (group typed (\<lambda>x y. fst x = fst y))"

definition mergeGroups :: "(ValidatorType \<times> Validator list) list \<Rightarrow> Validator list" where
  "mergeGroups groups =
     concat (map (\<lambda>(t, steps). case mergers t of Some m \<Rightarrow> [m steps] | None \<Rightarrow> steps) groups)"

text \<open>The \<^verbatim>\<open>reduce\<close> over \<^verbatim>\<open>mergedSteps\<close> that checks each step against its predecessor.
  It is only reached with at least two steps in the chain, hence with a list of merged steps
  that is not empty.\<close>

fun checkAdjacent :: "Validator list \<Rightarrow> Path \<Rightarrow> cerror + unit" where
  "checkAdjacent (x # y # rest) p =
     (case stepType x p of
        Inl e \<Rightarrow> Inl e
      | Inr prevType \<Rightarrow>
         (case stepType y p of
            Inl e \<Rightarrow> Inl e
          | Inr currType \<Rightarrow>
              if isCompatible prevType currType then checkAdjacent (y # rest) p
              else Inl (CannotFollow p currType prevType)))"
| "checkAdjacent vs p = Inr ()"

text \<open>\<^verbatim>\<open>input.flat()\<close>: one level of nesting is spliced.\<close>

fun flat :: "Validator list \<Rightarrow> Validator list" where
  "flat [] = []"
| "flat (Chain ws # vs) = ws @ flat vs"
| "flat (v # vs) = v # flat vs"

definition indexedErr :: "nat \<Rightarrow> string" where
  "indexedErr expectedLength =
     (if expectedLength = 1 then ''Expected array with one entry''
      else ''Expected array with '' @ showNat expectedLength @ '' entries'')"

text \<open>\<^verbatim>\<open>fields.filter(([, v]) => !isOptional(v, path)).map(([k]) => k)\<close>.\<close>

definition requiredKeysOf :: "(string \<times> Validator) list \<Rightarrow> Path \<Rightarrow> cerror + string list" where
  "requiredKeysOf fs p =
     (case mapE (\<lambda>(k, v). case isOptional v p of Inl e \<Rightarrow> Inl e | Inr b \<Rightarrow> Inr (k, b)) fs of
        Inl e \<Rightarrow> Inl e
      | Inr flagged \<Rightarrow> Inr (map fst (filter (\<lambda>(k, b). \<not> b) flagged)))"

subsection \<open>The compiler\<close>

text \<open>The size of a schema, by which the compiler's recursion terminates.\<close>

fun vsize :: "Validator \<Rightarrow> nat" where
  "vsize (Basic b) = 1"
| "vsize (Pred f e d) = 1"
| "vsize (Fn f) = 1"
| "vsize (Optional inner fb) = 1 + vsize inner"
| "vsize (Enum os) = 1"
| "vsize (Obj fs) = 1 + sum_list (map (\<lambda>kv. vsize (snd kv)) fs)"
| "vsize (Indexed es) = 1 + sum_list (map vsize es)"
| "vsize (OneOf bs) = 1 + sum_list (map vsize bs)"
| "vsize (Chain vs) = 1 + sum_list (map vsize vs)"

function compile :: "(jsval \<Rightarrow> jsnum) \<Rightarrow> Validator \<Rightarrow> Path \<Rightarrow> cerror + FnV"
  and compileChain :: "(jsval \<Rightarrow> jsnum) \<Rightarrow> Validator list \<Rightarrow> Path \<Rightarrow> cerror + FnV"
  and compileStep :: "(jsval \<Rightarrow> jsnum) \<Rightarrow> Validator \<Rightarrow> Path \<Rightarrow> cerror + FnV"
  and compileOptional :: "(jsval \<Rightarrow> jsnum) \<Rightarrow> Validator \<Rightarrow> jsval \<Rightarrow> Path \<Rightarrow> cerror + FnV"
  and compileObject :: "(jsval \<Rightarrow> jsnum) \<Rightarrow> (string \<times> Validator) list \<Rightarrow> Path \<Rightarrow> cerror + FnV"
  and compileIndexed :: "(jsval \<Rightarrow> jsnum) \<Rightarrow> Validator list \<Rightarrow> Path \<Rightarrow> cerror + FnV"
  and compileOneOf :: "(jsval \<Rightarrow> jsnum) \<Rightarrow> Validator list \<Rightarrow> Path \<Rightarrow> cerror + FnV"
where
  "compile tn input p =
     (case input of
        Chain vs \<Rightarrow> compileChain tn (flat vs) p
      | _ \<Rightarrow> (case checkStart input p of Inl e \<Rightarrow> Inl e | Inr u \<Rightarrow> compileStep tn input p))"
| "compileChain tn vs p =
     (if length vs = 0 then Inl (EmptyChain p)
      else case checkStart (hd vs) p of
        Inl e \<Rightarrow> Inl e
      | Inr u \<Rightarrow>
         if length vs = 1 then compileStep tn (hd vs) p
         else (case typedSteps vs p of
            Inl e \<Rightarrow> Inl e
          | Inr typed \<Rightarrow>
             (let mergedSteps = mergeGroups (groupSteps typed) in
              case checkAdjacent mergedSteps p of
                Inl e \<Rightarrow> Inl e
              | Inr u \<Rightarrow>
                 (case mapE (\<lambda>v. compileStep tn v p) mergedSteps of
                    Inl e \<Rightarrow> Inl e
                  | Inr compiledSteps \<Rightarrow> Inr (chainCheck compiledSteps)))))"
| "compileStep tn v p =
     (case v of
        Basic b \<Rightarrow> Inr (compileBasic tn b p)
      | Fn fn \<Rightarrow> Inr (compileFunction fn p)
      | Pred fn err d \<Rightarrow> compilePredicate fn err d p
      | Optional inner fallback \<Rightarrow> compileOptional tn inner fallback p
      | Enum options \<Rightarrow> compileEnum options p
      | Obj fs \<Rightarrow> compileObject tn fs p
      | Indexed entries \<Rightarrow> compileIndexed tn entries p
      | OneOf branches \<Rightarrow> compileOneOf tn branches p
      | Chain vs \<Rightarrow> Inl (UnrecognisedStep p))"
| "compileOptional tn inner fallback p =
     (case compile tn inner p of
        Inl e \<Rightarrow> Inl e
      | Inr v \<Rightarrow>
         (case v fallback of
            Inl exn \<Rightarrow> Inl (Uncaught exn)
          | Inr validatedFallback \<Rightarrow>
              if \<not> resultOk validatedFallback
              then Inl (BadFallback p (resultErrors validatedFallback))
              else Inr (optionalCheck validatedFallback v)))"
| "compileObject tn fs p =
     (let expectedKeys = map fst fs in
      case requiredKeysOf fs p of
        Inl e \<Rightarrow> Inl e
      | Inr requiredKeys \<Rightarrow>
         (case mapE (\<lambda>(k, v). case compile tn v (extendPath p (PStr k)) of
                                 Inl e \<Rightarrow> Inl e
                               | Inr f \<Rightarrow> Inr (k, f)) fs of
            Inl e \<Rightarrow> Inl e
          | Inr propValidators \<Rightarrow>
              Inr (objectCheck expectedKeys requiredKeys propValidators p)))"
| "compileIndexed tn entries p =
     (let expectedLength = length entries in
      case mapE (\<lambda>(ix, v). compile tn v (extendPath p (PNum (Fin (of_nat ix)))))
                (enumerate 0 entries) of
        Inl e \<Rightarrow> Inl e
      | Inr indexedValidators \<Rightarrow>
          Inr (indexedCheck expectedLength indexedValidators (indexedErr expectedLength) p))"
| "compileOneOf tn branches p =
     (case mapE (\<lambda>(ix, v). compile tn v (extendPath p (PStr (''Branch '' @ showNat ix))))
                (enumerate 0 branches) of
        Inl e \<Rightarrow> Inl e
      | Inr vs \<Rightarrow> Inr (oneOfCheck vs))"
  by pat_completeness auto

lemma vsize_pos: "0 < vsize v"
  by (cases v) auto

lemma vsize_flat: "sum_list (map vsize (flat vs)) \<le> sum_list (map vsize vs)"
  by (induction vs rule: flat.induct) auto

lemma vsize_hd: "vs \<noteq> [] \<Longrightarrow> vsize (hd vs) \<le> sum_list (map vsize vs)"
  by (cases vs) auto

lemma vsize_member: "v \<in> set vs \<Longrightarrow> vsize v \<le> sum_list (map vsize vs)"
  by (induction vs) auto

lemma vsize_field: "(k, v) \<in> set fs \<Longrightarrow> vsize v \<le> sum_list (map (\<lambda>kv. vsize (snd kv)) fs)"
  by (induction fs) auto

lemma vsize_enumerate: "(ix, v) \<in> set (enumerate n es) \<Longrightarrow> vsize v \<le> sum_list (map vsize es)"
  by (auto simp: in_set_enumerate_eq intro: vsize_member)

lemma typedSteps_snd:
  "mapE (\<lambda>v. case stepType v p of Inl e \<Rightarrow> Inl e | Inr t \<Rightarrow> Inr (t, v)) vs = Inr typed
     \<Longrightarrow> map snd typed = vs"
  by (induction vs arbitrary: typed) (auto split: sum.splits)

lemma takeRun_append: "fst (takeRun f y xs) @ snd (takeRun f y xs) = xs"
  by (induction xs arbitrary: y) auto

lemma concat_group: "concat (group xs f) = xs"
  by (induction xs f rule: group.induct) (auto simp: takeRun_append)

lemma group_nonempty: "g \<in> set (group xs f) \<Longrightarrow> g \<noteq> []"
  by (induction xs f rule: group.induct) auto

lemma objFields_size: "sum_list (map (\<lambda>kv. vsize (snd kv)) (objFields s)) + 1 \<le> vsize s"
  by (cases s) auto

lemma objFields_total:
  "sum_list (map (\<lambda>kv. vsize (snd kv)) (concat (map objFields steps))) + length steps
     \<le> sum_list (map vsize steps)"
proof (induction steps)
  case Nil
  show ?case by simp
next
  case (Cons s steps)
  then show ?case using objFields_size [of s] by simp
qed

lemma objectMerger_size:
  "steps \<noteq> [] \<Longrightarrow> vsize (objectMerger steps) \<le> sum_list (map vsize steps)"
  using objFields_total [of steps] by (cases steps) (simp_all add: objectMerger_def)

lemma enumMerger_size:
  "steps \<noteq> [] \<Longrightarrow> vsize (enumMerger steps) \<le> sum_list (map vsize steps)"
  using vsize_pos by (cases steps) (auto simp: enumMerger_def Suc_le_eq add_pos_nonneg)

lemma merger_size:
  "mergers t = Some m \<Longrightarrow> steps \<noteq> [] \<Longrightarrow> vsize (m steps) \<le> sum_list (map vsize steps)"
  by (cases t) (auto simp: objectMerger_size enumMerger_size)

lemma mergeGroups_size:
  "\<forall>g \<in> set gs. g \<noteq> [] \<Longrightarrow>
   sum_list (map vsize (mergeGroups (map (\<lambda>g. (fst (hd g), map snd g)) gs)))
     \<le> sum_list (map vsize (map snd (concat gs)))"
proof (induction gs)
  case Nil
  show ?case by (simp add: mergeGroups_def)
next
  case (Cons g gs)
  then have IH: "sum_list (map vsize (mergeGroups (map (\<lambda>g. (fst (hd g), map snd g)) gs)))
     \<le> sum_list (map vsize (map snd (concat gs)))" and g: "g \<noteq> []" by auto
  have "sum_list (map vsize (case mergers (fst (hd g)) of Some m \<Rightarrow> [m (map snd g)] | None \<Rightarrow> map snd g))
        \<le> sum_list (map vsize (map snd g))"
    using g merger_size [of "fst (hd g)" _ "map snd g"] by (auto split: option.splits)
  with IH show ?case by (simp add: mergeGroups_def)
qed

lemma mergedSteps_size:
  assumes "typedSteps vs p = Inr typed" and "v \<in> set (mergeGroups (groupSteps typed))"
  shows "vsize v \<le> sum_list (map vsize vs)"
proof -
  have "map snd typed = vs"
    using assms(1) unfolding typedSteps_def by (rule typedSteps_snd)
  moreover have "sum_list (map vsize (mergeGroups (groupSteps typed)))
      \<le> sum_list (map vsize (map snd (concat (group typed (\<lambda>x y. fst x = fst y)))))"
    unfolding groupSteps_def by (rule mergeGroups_size) (auto dest: group_nonempty)
  ultimately have "sum_list (map vsize (mergeGroups (groupSteps typed))) \<le> sum_list (map vsize vs)"
    by (simp add: concat_group)
  with vsize_member [OF assms(2)] show ?thesis by linarith
qed

termination compile
  apply (relation "measure (case_sum
      (case_sum (\<lambda>(tn, v, p). 3 * vsize v + 2)
         (case_sum (\<lambda>(tn, vs, p). 3 * sum_list (map vsize vs) + 2) (\<lambda>(tn, v, p). 3 * vsize v + 1)))
      (case_sum
         (case_sum (\<lambda>(tn, inner, fb, p). 3 * vsize inner + 3)
                   (\<lambda>(tn, fs, p). 3 * sum_list (map (\<lambda>kv. vsize (snd kv)) fs) + 3))
         (case_sum (\<lambda>(tn, es, p). 3 * sum_list (map vsize es) + 3)
                   (\<lambda>(tn, bs, p). 3 * sum_list (map vsize bs) + 3))))")
                  apply simp_all
  subgoal for input x9 using vsize_flat [of x9] by linarith
  subgoal for vs p using vsize_hd [of vs] by (cases vs) auto
  subgoal for vs p ba x xa using mergedSteps_size [of vs p ba xa] by linarith
  subgoal for fs p x b xa xb y using vsize_field [of xb y fs] by auto
  subgoal for entries x xa xb y using vsize_enumerate [of xb y 0 entries] by auto
  subgoal for branches x xa y using vsize_enumerate [of xa y 0 branches] by auto
  done

declare compile.simps [simp del] compileChain.simps [simp del] compileStep.simps [simp del]
  compileOptional.simps [simp del] compileObject.simps [simp del]
  compileIndexed.simps [simp del] compileOneOf.simps [simp del]

section \<open>Notions of the specification\<close>

text \<open>Running a compiled schema: compilation may fail with an authoring error; the check,
  once compiled, returns a \<^verbatim>\<open>Result\<close> or throws.\<close>

definition applyCompiled :: "cerror + FnV \<Rightarrow> jsval \<Rightarrow> cerror + (jsexn + Result)" where
  "applyCompiled c x = (case c of Inl e \<Rightarrow> Inl e | Inr f \<Rightarrow> Inr (f x))"

text \<open>The errors of every failing result, concatenated in input order.\<close>

fun failedErrors :: "Result list \<Rightarrow> VError list" where
  "failedErrors [] = []"
| "failedErrors (Success v # rs) = failedErrors rs"
| "failedErrors (Failure es # rs) = es @ failedErrors rs"

text \<open>A sequence standing where a step is expected.\<close>

fun isChain :: "Validator \<Rightarrow> bool" where
  "isChain (Chain vs) = True"
| "isChain v = False"

text \<open>The steps that \<^verbatim>\<open>compileChain\<close> compiles: the chain itself when it has one step,
  and otherwise the steps left after grouping and merging.\<close>

definition mergedChain :: "Validator list \<Rightarrow> Path \<Rightarrow> cerror + Validator list" where
  "mergedChain vs p =
     (if length vs \<le> 1 then Inr vs
      else case typedSteps vs p of
             Inl e \<Rightarrow> Inl e
           | Inr typed \<Rightarrow> Inr (mergeGroups (groupSteps typed)))"

text \<open>Threading a value through a list of checks as the specification words it: the next
  check is applied to the value of a success; a failure (or an exception) is the outcome,
  and the remaining checks are not consulted.\<close>

fun threadSteps :: "FnV list \<Rightarrow> jsval \<Rightarrow> jsexn + Result" where
  "threadSteps [] x = Inr (Success x)"
| "threadSteps (v # vs) x =
     (case v x of
        Inl e \<Rightarrow> Inl e
      | Inr (Success y) \<Rightarrow> threadSteps vs y
      | Inr (Failure es) \<Rightarrow> Inr (Failure es))"

text \<open>The path under which branch \<open>ix\<close> of a oneOf step is compiled.\<close>

definition branchPath :: "Path \<Rightarrow> nat \<Rightarrow> Path" where
  "branchPath p ix = extendPath p (PStr (''Branch '' @ showNat ix))"

text \<open>The errors of an outcome: those of a failure, none otherwise.\<close>

fun outcomeErrors :: "jsexn + Result \<Rightarrow> VError list" where
  "outcomeErrors (Inr (Failure es)) = es"
| "outcomeErrors r = []"

text \<open>Every error that a check reports lies at or below the path \<open>p\<close>.\<close>

definition errorsUnder :: "Path \<Rightarrow> FnV \<Rightarrow> bool" where
  "errorsUnder p f = (\<forall>x es. f x = Inr (Failure es) \<longrightarrow> (\<forall>e \<in> set es. prefix p (path e)))"

section \<open>Aggregation of results\<close>

lemma gather_all_ok:
  "list_all resultOk rs \<Longrightarrow> gather rs = Success (VArr (map resultValue rs))"
  by (simp add: gather_def list_all_iff filter_empty_conv)

lemma failedErrors_filter:
  "concat (map resultErrors (filter (\<lambda>r. \<not> resultOk r) rs)) = failedErrors rs"
  by (induction rs rule: failedErrors.induct) auto

lemma gather_some_failed:
  "\<not> list_all resultOk rs \<Longrightarrow> gather rs = Failure (failedErrors rs)"
  by (simp add: gather_def list_all_iff filter_empty_conv failedErrors_filter)

text \<open>
  Claim C6. For every list of results, \<open>gather\<close> returns the success of the values in
  input order when every input is a success, and otherwise a failure whose errors are the
  errors of every failing input, concatenated in input order, the values of the successful
  inputs being dropped. Nothing is cut short: the errors of all failing entries are kept.
\<close>

theorem gather_law:
  "gather (map Success vs) = Success (VArr vs)
   \<and> (list_all resultOk rs \<longrightarrow> gather rs = Success (VArr (map resultValue rs)))
   \<and> (\<not> list_all resultOk rs \<longrightarrow> gather rs = Failure (failedErrors rs))
   \<and> failedErrors (rs1 @ Failure es # rs2) = failedErrors rs1 @ es @ failedErrors rs2"
proof -
  have "gather (map Success vs) = Success (VArr vs)"
    using gather_all_ok [of "map Success vs"] by (simp add: list_all_iff comp_def)
  moreover have "failedErrors (rs1 @ Failure es # rs2) = failedErrors rs1 @ es @ failedErrors rs2"
    by (induction rs1 rule: failedErrors.induct) auto
  ultimately show ?thesis
    using gather_all_ok gather_some_failed by blast
qed

theorem gather_law_witness:
  "gather [Success (VBool True), Success VNull] = Success (VArr [VBool True, VNull])
   \<and> gather [Failure [VError [] ''a'' None], Success VNull,
              Failure [VError [PStr ''x''] ''b'' None, VError [] ''c'' None]]
       = Failure [VError [] ''a'' None, VError [PStr ''x''] ''b'' None, VError [] ''c'' None]"
  using gather_law [of "[VBool True, VNull]" "[Success (VBool True), Success VNull]" "[]" "[]" "[]"]
    gather_law [of "[]" "[Failure [VError [] ''a'' None], Success VNull,
              Failure [VError [PStr ''x''] ''b'' None, VError [] ''c'' None]]" "[]" "[]" "[]"]
  by simp

section \<open>Evaluation and first consequences of the compiler's equations\<close>

lemmas compile_eval = compile.simps compileChain.simps compileStep.simps compileOptional.simps
  compileObject.simps compileIndexed.simps compileOneOf.simps checkStart_def typedSteps_def
  groupSteps_def mergeGroups_def chainCheck_def basic_def ok_def fail_def applyCompiled_def
  compileEnum_def compilePredicate_def compileFunction_def optionalCheck_def objectCheck_def
  indexedCheck_def oneOfCheck_def requiredKeysOf_def extendPath_def enumMerger_def objectMerger_def
  lengthGtZero_def isNullish_def numOfNat_def indexedErr_def gather_def lookupOr_def
  MAX_SAFE_INTEGER_def

lemma compile_Chain: "compile tn (Chain vs) p = compileChain tn (flat vs) p"
  by (simp add: compile.simps)

lemma compile_step:
  "\<not> isChain v \<Longrightarrow>
   compile tn v p = (case checkStart v p of Inl e \<Rightarrow> Inl e | Inr u \<Rightarrow> compileStep tn v p)"
  by (cases v) (auto simp: compile.simps split: sum.splits)

lemma isRefinement_Chain: "isRefinement (Chain zs) \<Longrightarrow> \<exists>w. zs = [w] \<and> isRefinement w"
  by (cases "Chain zs" rule: isRefinement.cases) auto

lemma checkStart_refinement: "isRefinement v \<Longrightarrow> \<exists>e. checkStart v p = Inl e"
  by (auto simp: checkStart_def split: sum.splits)

lemma checkStart_ok: "checkStart v p = Inr u \<Longrightarrow> \<not> isRefinement v"
  using checkStart_refinement [of v p] by auto

lemma compileChain_ok_start:
  "compileChain tn vs p = Inr f \<Longrightarrow> vs \<noteq> [] \<and> \<not> isRefinement (hd vs)"
  by (auto simp: compileChain.simps dest: checkStart_ok split: if_splits sum.splits)

section \<open>Refinements at the head of a chain\<close>

text \<open>
  Claim C9. Compiling a schema that is a bare refinement step (\<^verbatim>\<open>"non-empty"\<close> or
  \<^verbatim>\<open>"integer"\<close>), or a chain whose first step after flattening is one, fails with the
  authoring error that names the offending kind; whenever a chain compiles, it is not
  empty and its first step is not a refinement, and no schema on which \<open>isRefinement\<close>
  holds compiles.
\<close>

theorem refinement_never_starts:
  "((b = BNonEmpty \<or> b = BInteger) \<longrightarrow>
      compile tn (Basic b) p = Inl (RefinementAtStart p (TBasic b))
      \<and> (flat vs = Basic b # rest \<longrightarrow>
           compile tn (Chain vs) p = Inl (RefinementAtStart p (TBasic b))))
   \<and> (compile tn (Chain ws) p = Inr f \<longrightarrow> flat ws \<noteq> [] \<and> \<not> isRefinement (hd (flat ws)))
   \<and> (isRefinement v \<longrightarrow> (\<exists>e. compile tn v p = Inl e))"
proof (intro conjI impI)
  assume b: "b = BNonEmpty \<or> b = BInteger"
  then show "compile tn (Basic b) p = Inl (RefinementAtStart p (TBasic b))"
    by (auto simp: compile.simps checkStart_def)
  assume "flat vs = Basic b # rest"
  with b show "compile tn (Chain vs) p = Inl (RefinementAtStart p (TBasic b))"
    by (auto simp: compile_Chain compileChain.simps checkStart_def)
next
  assume c: "compile tn (Chain ws) p = Inr f"
  then show "flat ws \<noteq> []" and "\<not> isRefinement (hd (flat ws))"
    using compileChain_ok_start [of tn "flat ws" p f] by (simp_all add: compile_Chain)
next
  assume r: "isRefinement v"
  show "\<exists>e. compile tn v p = Inl e"
  proof (cases "isChain v")
    case False
    with r checkStart_refinement [of v p] show ?thesis
      by (auto simp: compile_step)
  next
    case True
    then obtain zs where v: "v = Chain zs" by (cases v) auto
    with r obtain w where zs: "zs = [w]" and w: "isRefinement w"
      using isRefinement_Chain by blast
    have "\<exists>e. compileChain tn (flat [w]) p = Inl e"
    proof (cases "compileChain tn (flat [w]) p")
      case (Inr g)
      from compileChain_ok_start [OF this] have ne: "flat [w] \<noteq> []" and nr: "\<not> isRefinement (hd (flat [w]))"
        by auto
      show ?thesis
      proof (cases "isChain w")
        case False
        then have "flat [w] = [w]" by (cases w) auto
        with nr w show ?thesis by simp
      next
        case True
        then obtain xs where "w = Chain xs" by (cases w) auto
        with w obtain y where "xs = [y]" "isRefinement y"
          using isRefinement_Chain by blast
        with \<open>w = Chain xs\<close> nr show ?thesis by simp
      qed
    qed auto
    with v zs show ?thesis by (simp add: compile_Chain)
  qed
qed

theorem refinement_never_starts_witness:
  "compile (\<lambda>v. NaN) (Basic BNonEmpty) [] = Inl (RefinementAtStart [] (TBasic BNonEmpty))
   \<and> compile (\<lambda>v. NaN) (Chain [Basic BInteger, Basic BNumber]) [PStr ''n'']
       = Inl (RefinementAtStart [PStr ''n''] (TBasic BInteger))
   \<and> applyCompiled (compile (\<lambda>v. NaN) (Chain [Basic BString, Basic BNonEmpty]) []) (VStr ''a'')
       = Inr (Inr (Success (VStr ''a'')))
   \<and> \<not> isRefinement (hd (flat [Basic BString, Basic BNonEmpty]))
   \<and> isRefinement (Chain [Basic BInteger])
   \<and> (\<exists>e. compile (\<lambda>v. NaN) (Chain [Basic BInteger]) [] = Inl e)"
  using refinement_never_starts [of BNonEmpty "\<lambda>v. NaN" "[]" "[Basic BNonEmpty]" "[]"
      "[Basic BString, Basic BNonEmpty]" _ "Chain [Basic BInteger]"]
    refinement_never_starts [of BInteger "\<lambda>v. NaN" "[PStr ''n'']" "[Basic BInteger, Basic BNumber]"
      "[Basic BNumber]" "[]" _ "Basic BString"]
  by (simp add: compile_eval)

section \<open>The compatibility check between adjacent steps\<close>

text \<open>
  Claim C1 says that a chain compiles only if every adjacent pair of kinds, neither of them
  predicate or function, is one of enum--enum, object--object, array--indexed,
  array--non-empty, string--non-empty and number--integer, so that string followed by
  integer and number followed by string are rejected. The last test of \<open>isCompatible\<close>
  accepts a pair when the first kind is number \<^emph>\<open>or\<close> the second is integer: the chains
  \<^verbatim>\<open>["string", "integer"]\<close> and \<^verbatim>\<open>["number", "string"]\<close> compile, and the compiled checks
  run.
\<close>

theorem compile_accepts_string_integer:
  "isCompatible (TBasic BString) (TBasic BInteger)
   \<and> applyCompiled (compile tn (Chain [Basic BString, Basic BInteger]) []) (VStr ''a'')
       = Inr (Inr (Failure [VError [] ''Not an integer'' None]))
   \<and> isCompatible (TBasic BNumber) (TBasic BString)
   \<and> applyCompiled (compile tn (Chain [Basic BNumber, Basic BString]) []) (VNum (Fin 1))
       = Inr (Inr (Failure [VError [] ''Not a string'' None]))"
  by (simp add: compile_eval)

section \<open>Exceptions of compiled checks\<close>

text \<open>
  Claim C2 says that the check compiled from a well-formed schema returns a result on every
  input and never throws, in particular when a standalone object or indexed check is applied
  to \<^verbatim>\<open>null\<close>, \<^verbatim>\<open>undefined\<close> or a value that is not an object. The object check starts with
  \<^verbatim>\<open>Object.keys(x)\<close> and the indexed check with \<^verbatim>\<open>x.length\<close>; on \<^verbatim>\<open>null\<close> and \<^verbatim>\<open>undefined\<close>
  both throw a \<^verbatim>\<open>TypeError\<close>, which nothing catches. On a number or a boolean they return a
  failure. The refinement \<^verbatim>\<open>"non-empty"\<close> reads \<^verbatim>\<open>x.length\<close> in the same way, so a chain
  that reaches it with \<^verbatim>\<open>null\<close> throws as well.
\<close>

theorem object_check_throws_on_null:
  "applyCompiled (compile tn (Obj []) []) VNull = Inr (Inl TypeError)
   \<and> applyCompiled (compile tn (Obj []) []) VUndefined = Inr (Inl TypeError)
   \<and> applyCompiled (compile tn (Indexed []) []) VNull = Inr (Inl TypeError)
   \<and> applyCompiled (compile tn (Indexed []) []) VUndefined = Inr (Inl TypeError)
   \<and> applyCompiled (compile tn (Obj [(''a'', Basic BString)]) []) (VNum (Fin 5))
        = Inr (Inr (Failure [VError [] ''Missing expected properties'' (Some (Expected [VStr ''a'']))]))
   \<and> applyCompiled (compile tn (Indexed [Basic BString]) []) (VBool True)
        = Inr (Inr (Failure [VError [] ''Expected array with one entry'' (Some (Found VUndefined))]))
   \<and> applyCompiled (compile tn (Chain [Pred (\<lambda>x. Inr True) ''never'' None, Basic BNonEmpty]) [])
        VNull = Inr (Inl TypeError)"
  by (simp add: compile_eval)

section \<open>Flattening of nested sequences\<close>

lemma flat_append: "flat (xs @ ys) = flat xs @ flat ys"
  by (induction xs rule: flat.induct) auto

lemma flat_no_chain: "\<forall>w \<in> set zs. \<not> isChain w \<Longrightarrow> flat zs = zs"
  by (induction zs rule: flat.induct) auto

lemma typedSteps_chain: "\<exists>w \<in> set zs. isChain w \<Longrightarrow> \<exists>e. typedSteps zs p = Inl e"
proof (induction zs)
  case Nil
  then show ?case by simp
next
  case (Cons z zs)
  show ?case
  proof (cases "isChain z")
    case True
    then show ?thesis by (cases z) (auto simp: typedSteps_def)
  next
    case False
    with Cons obtain e where "typedSteps zs p = Inl e" by auto
    then show ?thesis by (auto simp: typedSteps_def split: sum.splits)
  qed
qed

lemma compileChain_nested:
  assumes "\<exists>w \<in> set zs. isChain w"
  shows "\<exists>e. compileChain tn zs p = Inl e"
proof (cases "length zs = 1")
  case True
  then obtain z where zs: "zs = [z]" by (cases zs) auto
  with assms obtain ws where "z = Chain ws" by (cases z) auto
  with zs show ?thesis
    by (auto simp: compileChain.simps compileStep.simps split: sum.splits)
next
  case False
  from typedSteps_chain [OF assms] obtain e where "typedSteps zs p = Inl e" by blast
  with False show ?thesis
    by (auto simp: compileChain.simps split: sum.splits)
qed

text \<open>
  Claim C10. A schema that is a sequence is flattened exactly one level before the chain is
  compiled: an element that is itself a sequence is spliced in its place, so that
  \<^verbatim>\<open>[a, [b, c]]\<close> compiles to what \<^verbatim>\<open>[a, b, c]\<close> compiles to, with the same grouping,
  merging and compatibility checks. Deeper nesting is not flattened: a sequence that is
  still nested after one level of splicing is not a step, and compilation fails.
\<close>

theorem compile_flattens_once:
  "compile tn (Chain vs) p = compileChain tn (flat vs) p
   \<and> flat (xs @ Chain ws # ys) = flat xs @ ws @ flat ys
   \<and> (\<not> isChain a \<and> \<not> isChain b \<and> \<not> isChain c \<longrightarrow>
        compile tn (Chain [a, Chain [b, c]]) p = compile tn (Chain [a, b, c]) p)
   \<and> ((\<forall>w \<in> set (flat vs). \<not> isChain w) \<longrightarrow>
        compile tn (Chain vs) p = compile tn (Chain (flat vs)) p)
   \<and> ((\<exists>w \<in> set (flat vs). isChain w) \<longrightarrow> (\<exists>e. compile tn (Chain vs) p = Inl e))"
proof (intro conjI impI)
  show "compile tn (Chain vs) p = compileChain tn (flat vs) p"
    by (rule compile_Chain)
  show "flat (xs @ Chain ws # ys) = flat xs @ ws @ flat ys"
    by (simp add: flat_append)
next
  assume "\<not> isChain a \<and> \<not> isChain b \<and> \<not> isChain c"
  then have "flat [a, Chain [b, c]] = [a, b, c]" and "flat [a, b, c] = [a, b, c]"
    by (cases a; cases b; cases c; simp)+
  then show "compile tn (Chain [a, Chain [b, c]]) p = compile tn (Chain [a, b, c]) p"
    by (simp only: compile_Chain)
next
  assume "\<forall>w \<in> set (flat vs). \<not> isChain w"
  then have "flat (flat vs) = flat vs" by (rule flat_no_chain)
  then show "compile tn (Chain vs) p = compile tn (Chain (flat vs)) p"
    by (simp only: compile_Chain)
next
  assume "\<exists>w \<in> set (flat vs). isChain w"
  then show "\<exists>e. compile tn (Chain vs) p = Inl e"
    unfolding compile_Chain by (rule compileChain_nested)
qed

theorem compile_flattens_once_witness:
  "compile (\<lambda>v. NaN) (Chain [Basic BString, Chain [Basic BNonEmpty, Enum [VStr ''a'']]]) []
     = compile (\<lambda>v. NaN) (Chain [Basic BString, Basic BNonEmpty, Enum [VStr ''a'']]) []
   \<and> compile (\<lambda>v. NaN) (Chain [Chain [Basic BNumber], Chain [Basic BInteger]]) []
     = compile (\<lambda>v. NaN) (Chain [Basic BNumber, Basic BInteger]) []
   \<and> applyCompiled (compile (\<lambda>v. NaN) (Chain [Chain [Basic BNumber], Chain [Basic BInteger]]) [])
        (VNum (Fin 3)) = Inr (Inr (Success (VNum (Fin 3))))
   \<and> flat [Basic BNumber, Chain [Basic BInteger, Chain [Basic BString]]]
     = [Basic BNumber, Basic BInteger, Chain [Basic BString]]
   \<and> compile (\<lambda>v. NaN) (Chain [Basic BNumber, Chain [Basic BInteger, Chain [Basic BString]]]) []
     = Inl (UnknownStepType [])
   \<and> (\<exists>e. compile (\<lambda>v. NaN) (Chain [Basic BNumber, Chain [Basic BInteger, Chain [Basic BString]]]) []
          = Inl e)"
  using compile_flattens_once [of "\<lambda>v. NaN" "[Chain [Basic BNumber], Chain [Basic BInteger]]" "[]"
      "[]" "[]" "[]" "Basic BString" "Basic BNonEmpty" "Enum [VStr ''a'']"]
    compile_flattens_once [of "\<lambda>v. NaN" "[Basic BNumber, Chain [Basic BInteger, Chain [Basic BString]]]"
      "[]" "[]" "[]" "[]" "Basic BString" "Basic BNonEmpty" "Enum [VStr ''a'']"]
  by (simp add: compile_eval MAX_SAFE_INTEGER_def)

section \<open>Sequential composition of a chain\<close>

lemma foldl_chain_failed:
  "foldl (\<lambda>result v. case result of Inl e \<Rightarrow> Inl e
                     | Inr r \<Rightarrow> if resultOk r then v (resultValue r) else Inr r)
     (Inr (Failure es)) fs = Inr (Failure es)"
  by (induction fs) auto

lemma foldl_chain_thrown:
  "foldl (\<lambda>result v. case result of Inl e \<Rightarrow> Inl e
                     | Inr r \<Rightarrow> if resultOk r then v (resultValue r) else Inr r)
     (Inl e) fs = Inl e"
  by (induction fs) auto

lemma chainCheck_thread: "chainCheck fs x = threadSteps fs x"
proof -
  have "foldl (\<lambda>result v. case result of Inl e \<Rightarrow> Inl e
                     | Inr r \<Rightarrow> if resultOk r then v (resultValue r) else Inr r)
     (Inr (Success y)) fs = threadSteps fs y" for y
  proof (induction fs arbitrary: y)
    case Nil
    show ?case by simp
  next
    case (Cons g fs)
    show ?case
    proof (cases "g y")
      case (Inl e)
      then show ?thesis by (simp add: foldl_chain_thrown)
    next
      case (Inr r)
      then show ?thesis using Cons by (cases r) (simp_all add: foldl_chain_failed)
    qed
  qed
  then show ?thesis by (simp add: chainCheck_def ok_def)
qed

lemma threadSteps_single: "threadSteps [g] x = g x"
  by (auto split: sum.splits Result.splits)

lemma threadSteps_append:
  "threadSteps fs1 x = Inr (Success y) \<Longrightarrow> threadSteps (fs1 @ fs2) x = threadSteps fs2 y"
  by (induction fs1 arbitrary: x) (auto split: sum.splits Result.splits)

lemma mapE_length: "mapE h xs = Inr ys \<Longrightarrow> length ys = length xs"
  by (induction xs arbitrary: ys) (auto split: sum.splits)

text \<open>
  Claim C8. The check compiled from a chain threads a result through the compiled (merged)
  steps, starting from the success of the input: each step is applied to the running value
  only while the running result is a success, and the first step that fails determines the
  failure of the chain, whatever steps follow it.
\<close>

theorem chain_threads_steps:
  "(compile tn (Chain vs) p = Inr f \<longrightarrow>
      (\<exists>ms fs. mergedChain (flat vs) p = Inr ms
              \<and> mapE (\<lambda>v. compileStep tn v p) ms = Inr fs
              \<and> length fs = length ms
              \<and> (\<forall>x. f x = threadSteps fs x)))
   \<and> (threadSteps fs1 x = Inr (Success y) \<and> g y = Inr (Failure es) \<longrightarrow>
        threadSteps (fs1 @ g # fs2) x = Inr (Failure es))
   \<and> (threadSteps fs1 x = Inr (Success y) \<longrightarrow>
        threadSteps (fs1 @ fs2) x = threadSteps fs2 y)"
proof (intro conjI impI)
  assume c: "compile tn (Chain vs) p = Inr f"
  let ?zs = "flat vs"
  from c have cc: "compileChain tn ?zs p = Inr f" by (simp add: compile_Chain)
  show "\<exists>ms fs. mergedChain ?zs p = Inr ms \<and> mapE (\<lambda>v. compileStep tn v p) ms = Inr fs
          \<and> length fs = length ms \<and> (\<forall>x. f x = threadSteps fs x)"
  proof (cases "length ?zs = 1")
    case True
    then obtain z where z: "?zs = [z]" by (cases "?zs") auto
    with cc have "compileStep tn z p = Inr f"
      by (auto simp: compileChain.simps split: sum.splits)
    with z show ?thesis
      by (auto simp: mergedChain_def threadSteps_single simp del: threadSteps.simps)
  next
    case False
    with cc obtain typed fs where t: "typedSteps ?zs p = Inr typed"
      and m: "mapE (\<lambda>v. compileStep tn v p) (mergeGroups (groupSteps typed)) = Inr fs"
      and f: "f = chainCheck fs"
      by (auto simp: compileChain.simps Let_def split: if_splits sum.splits)
    from cc have "?zs \<noteq> []" by (auto simp: compileChain.simps)
    with False have "\<not> length ?zs \<le> 1" by (cases "?zs") auto
    with t have "mergedChain ?zs p = Inr (mergeGroups (groupSteps typed))"
      by (simp add: mergedChain_def)
    with m f mapE_length [OF m] show ?thesis
      by (auto simp: chainCheck_thread)
  qed
next
  assume "threadSteps fs1 x = Inr (Success y) \<and> g y = Inr (Failure es)"
  then show "threadSteps (fs1 @ g # fs2) x = Inr (Failure es)"
    by (simp add: threadSteps_append)
next
  assume "threadSteps fs1 x = Inr (Success y)"
  then show "threadSteps (fs1 @ fs2) x = threadSteps fs2 y"
    by (rule threadSteps_append)
qed

theorem chain_threads_steps_witness:
  "compile (\<lambda>v. NaN) (Chain [Basic BString, Basic BNonEmpty]) []
     = Inr (chainCheck [compileBasic (\<lambda>v. NaN) BString [], compileBasic (\<lambda>v. NaN) BNonEmpty []])
   \<and> (\<exists>ms fs. mergedChain (flat [Basic BString, Basic BNonEmpty]) [] = Inr ms
         \<and> mapE (\<lambda>v. compileStep (\<lambda>v. NaN) v []) ms = Inr fs
         \<and> length fs = length ms
         \<and> (\<forall>x. chainCheck [compileBasic (\<lambda>v. NaN) BString [], compileBasic (\<lambda>v. NaN) BNonEmpty []] x
                = threadSteps fs x))
   \<and> applyCompiled (compile (\<lambda>v. NaN) (Chain [Basic BString, Basic BNonEmpty]) []) (VStr [])
       = Inr (Inr (Failure [VError [] ''Is empty'' None]))
   \<and> applyCompiled (compile (\<lambda>v. NaN) (Chain [Basic BNumber, Basic BInteger]) []) (VNum PosInf)
       = Inr (Inr (Failure [VError [] ''Not an integer'' None]))
   \<and> threadSteps [compileBasic (\<lambda>v. NaN) BString []] (VStr ''a'') = Inr (Success (VStr ''a''))
   \<and> threadSteps ([compileBasic (\<lambda>v. NaN) BString []]
                    @ compileBasic (\<lambda>v. NaN) BNumber [] # [\<lambda>x. Inl TypeError]) (VStr ''a'')
       = Inr (Failure [VError [] ''Not a number'' None])"
  using chain_threads_steps [of "\<lambda>v. NaN" "[Basic BString, Basic BNonEmpty]" "[]"
      "chainCheck [compileBasic (\<lambda>v. NaN) BString [], compileBasic (\<lambda>v. NaN) BNonEmpty []]"
      "[compileBasic (\<lambda>v. NaN) BString []]" "VStr ''a''" "VStr ''a''"
      "compileBasic (\<lambda>v. NaN) BNumber []" "[VError [] ''Not a number'' None]"
      "[\<lambda>x. Inl TypeError]"]
  by (simp add: compile_eval)

section \<open>Merging of adjacent enum steps\<close>

lemma takeRun_all:
  "\<forall>a \<in> set (y # xs). \<forall>b \<in> set (y # xs). f a b \<Longrightarrow> takeRun f y xs = (xs, [])"
  by (induction xs arbitrary: y) auto

lemma group_all:
  "xs \<noteq> [] \<Longrightarrow> \<forall>a \<in> set xs. \<forall>b \<in> set xs. f a b \<Longrightarrow> group xs f = [xs]"
  by (cases xs) (simp_all add: takeRun_all)

lemma typedSteps_enums:
  "typedSteps (map Enum xss) p = Inr (map (\<lambda>xs. (TEnum, Enum xs)) xss)"
  by (induction xss) (simp_all add: typedSteps_def)

lemma chainCheck_single: "chainCheck [g] = g"
  by (rule ext) (simp add: chainCheck_def ok_def)

lemma compile_Enum: "compile tn (Enum xs) p = compileEnum xs p"
  by (simp add: compile.simps compileStep.simps checkStart_def)

lemma compileChain_enums:
  assumes "xss \<noteq> []"
  shows "compileChain tn (map Enum xss) p = compileEnum (concat xss) p"
proof (cases "length xss = 1")
  case True
  then obtain xs where "xss = [xs]" by (cases xss) auto
  then show ?thesis
    by (simp add: compileChain.simps compileStep.simps checkStart_def)
next
  case False
  let ?typed = "map (\<lambda>xs. (TEnum, Enum xs)) xss"
  have "group ?typed (\<lambda>x y. fst x = fst y) = [?typed]"
    using assms by (intro group_all) auto
  then have "mergeGroups (groupSteps ?typed) = [Enum (concat xss)]"
    using assms by (simp add: groupSteps_def mergeGroups_def enumMerger_def hd_map comp_def)
  with False assms show ?thesis
    by (cases "compileEnum (concat xss) p")
       (simp_all add: compileChain.simps typedSteps_enums compileStep.simps checkStart_def
          hd_map chainCheck_single)
qed

text \<open>
  Claim C7. A chain of adjacent enum steps compiles to the check of the single enum whose
  options are the option lists concatenated in order, duplicates kept. For two enums with
  literal options, the check of \<^verbatim>\<open>[enum(xs), enum(ys)]\<close> returns the success of the value
  exactly when the value is among \<open>xs @ ys\<close>, and otherwise the failure "Unexpected value"
  with the detail \<^verbatim>\<open>{expected: xs ++ ys}\<close>.
\<close>

theorem enum_chain_merges:
  "(xss \<noteq> [] \<longrightarrow> compile tn (Chain (map Enum xss)) p = compile tn (Enum (concat xss)) p)
   \<and> compile tn (Chain [Enum xs, Enum ys]) p = compile tn (Enum (xs @ ys)) p
   \<and> (list_all isLiteral (xs @ ys) \<longrightarrow>
        applyCompiled (compile tn (Chain [Enum xs, Enum ys]) p) x
          = Inr (Inr (if x \<in> set (xs @ ys) then Success x
                      else Failure [VError p ''Unexpected value'' (Some (Expected (xs @ ys)))])))"
proof -
  have flat: "flat (map Enum zss) = map Enum zss" for zss
    by (rule flat_no_chain) auto
  have general: "compile tn (Chain (map Enum zss)) p = compile tn (Enum (concat zss)) p"
    if "zss \<noteq> []" for zss
    using that by (simp add: compile_Chain flat compileChain_enums compile_Enum)
  from general [of "[xs, ys]"]
  have two: "compile tn (Chain [Enum xs, Enum ys]) p = compile tn (Enum (xs @ ys)) p"
    by simp
  have "applyCompiled (compile tn (Enum (xs @ ys)) p) x
          = Inr (Inr (if x \<in> set (xs @ ys) then Success x
                      else Failure [VError p ''Unexpected value'' (Some (Expected (xs @ ys)))]))"
    if "list_all isLiteral (xs @ ys)"
  proof -
    from that have "filter (\<lambda>v. \<not> isLiteral v) (xs @ ys) = []"
      by (simp add: list_all_iff filter_empty_conv)
    then show ?thesis
      by (simp add: compile_Enum compileEnum_def applyCompiled_def basic_def ok_def fail_def)
  qed
  with general two show ?thesis by simp
qed

theorem enum_chain_merges_witness:
  "applyCompiled (compile (\<lambda>v. NaN) (Chain [Enum [VNum (Fin 1), VNum (Fin 2)],
       Enum [VNum (Fin 3), VNum (Fin 4)]]) []) (VNum (Fin 3)) = Inr (Inr (Success (VNum (Fin 3))))
   \<and> applyCompiled (compile (\<lambda>v. NaN) (Chain [Enum [VNum (Fin 1), VNum (Fin 2)],
       Enum [VNum (Fin 3), VNum (Fin 4)]]) []) (VNum (Fin 5))
       = Inr (Inr (Failure [VError [] ''Unexpected value''
            (Some (Expected [VNum (Fin 1), VNum (Fin 2), VNum (Fin 3), VNum (Fin 4)]))]))
   \<and> compile (\<lambda>v. NaN) (Chain (map Enum [[VStr ''a''], [VStr ''a'', VBool True], []])) []
       = compile (\<lambda>v. NaN) (Enum [VStr ''a'', VStr ''a'', VBool True]) []"
  using enum_chain_merges [of "[[VStr ''a''], [VStr ''a'', VBool True], []]" "\<lambda>v. NaN" "[]"
      "[VNum (Fin 1), VNum (Fin 2)]" "[VNum (Fin 3), VNum (Fin 4)]" "VNum (Fin 3)"]
    enum_chain_merges [of "[[VStr ''a''], [VStr ''a'', VBool True], []]" "\<lambda>v. NaN" "[]"
      "[VNum (Fin 1), VNum (Fin 2)]" "[VNum (Fin 3), VNum (Fin 4)]" "VNum (Fin 5)"]
  by (simp add: compile_eval)

section \<open>Optional steps and their fallback\<close>

lemma compile_Optional:
  "compile tn (Optional inner fallback) p = compileOptional tn inner fallback p"
  by (simp add: compile.simps compileStep.simps checkStart_def)

text \<open>
  Claim C5. Compiling \<^verbatim>\<open>optional(inner, fallback)\<close> runs the compiled inner check on the
  fallback; if that check fails, compilation itself fails with an authoring error that
  carries the inner errors, and no check is returned. When compilation succeeds, the check
  maps \<^verbatim>\<open>null\<close> and \<^verbatim>\<open>undefined\<close> to the success of the value that the inner check
  returned for the fallback (the validated, possibly transformed fallback, not the raw
  one), and agrees with the inner check on every other input.
\<close>

theorem optional_uses_validated_fallback:
  "(compile tn inner p = Inr v \<and> v fallback = Inr (Failure es) \<longrightarrow>
      compile tn (Optional inner fallback) p = Inl (BadFallback p es))
   \<and> (compile tn (Optional inner fallback) p = Inr f \<longrightarrow>
        (\<exists>v y. compile tn inner p = Inr v \<and> v fallback = Inr (Success y)
             \<and> f VNull = Inr (Success y) \<and> f VUndefined = Inr (Success y)
             \<and> (\<forall>x. x \<noteq> VNull \<and> x \<noteq> VUndefined \<longrightarrow> f x = v x)))"
proof (intro conjI impI)
  assume "compile tn inner p = Inr v \<and> v fallback = Inr (Failure es)"
  then show "compile tn (Optional inner fallback) p = Inl (BadFallback p es)"
    by (simp add: compile_Optional compileOptional.simps)
next
  assume "compile tn (Optional inner fallback) p = Inr f"
  then obtain v r where v: "compile tn inner p = Inr v" and r: "v fallback = Inr r"
    and okr: "resultOk r" and f: "f = optionalCheck r v"
    by (auto simp: compile_Optional compileOptional.simps split: sum.splits if_splits)
  from okr obtain y where "r = Success y" by (cases r) auto
  with v r f show "\<exists>v y. compile tn inner p = Inr v \<and> v fallback = Inr (Success y)
             \<and> f VNull = Inr (Success y) \<and> f VUndefined = Inr (Success y)
             \<and> (\<forall>x. x \<noteq> VNull \<and> x \<noteq> VUndefined \<longrightarrow> f x = v x)"
    by (auto simp: optionalCheck_def isNullish_def ok_def)
qed

theorem optional_uses_validated_fallback_witness:
  "compile (\<lambda>v. NaN) (Optional (Basic BBoolean) (VNum (Fin 0))) []
     = Inl (BadFallback [] [VError [] ''Not a boolean'' None])
   \<and> applyCompiled (compile (\<lambda>v. NaN)
        (Optional (Fn (\<lambda>x. ReturnsResult (Success (VArr [x])))) (VBool False)) []) VNull
       = Inr (Inr (Success (VArr [VBool False])))
   \<and> applyCompiled (compile (\<lambda>v. NaN)
        (Optional (Fn (\<lambda>x. ReturnsResult (Success (VArr [x])))) (VBool False)) []) VUndefined
       = Inr (Inr (Success (VArr [VBool False])))
   \<and> applyCompiled (compile (\<lambda>v. NaN) (Optional (Basic BBoolean) (VBool False)) []) (VNum (Fin 7))
       = Inr (Inr (Failure [VError [] ''Not a boolean'' None]))
   \<and> (\<exists>v y. compile (\<lambda>v. NaN) (Basic BBoolean) [] = Inr v \<and> v (VBool False) = Inr (Success y)
         \<and> (\<forall>x. x \<noteq> VNull \<and> x \<noteq> VUndefined \<longrightarrow>
               optionalCheck (Success (VBool False)) (compileBasic (\<lambda>v. NaN) BBoolean []) x = v x))"
  using optional_uses_validated_fallback [of "\<lambda>v. NaN" "Basic BBoolean" "[]"
      "compileBasic (\<lambda>v. NaN) BBoolean []" "VNum (Fin 0)" "[VError [] ''Not a boolean'' None]"
      "optionalCheck (Success (VBool False)) (compileBasic (\<lambda>v. NaN) BBoolean [])"]
    optional_uses_validated_fallback [of "\<lambda>v. NaN" "Basic BBoolean" "[]"
      "compileBasic (\<lambda>v. NaN) BBoolean []" "VBool False" "[]"
      "optionalCheck (Success (VBool False)) (compileBasic (\<lambda>v. NaN) BBoolean [])"]
  by (simp add: compile_eval)

section \<open>Errors are reported at or below the path of the check\<close>

lemma mapE_all2: "mapE h xs = Inr ys \<Longrightarrow> list_all2 (\<lambda>x y. h x = Inr y) xs ys"
  by (induction xs arbitrary: ys) (auto split: sum.splits)


lemma mapE_member: "mapE h xs = Inr ys \<Longrightarrow> y \<in> set ys \<Longrightarrow> \<exists>x \<in> set xs. h x = Inr y"
  by (induction xs arbitrary: ys) (auto split: sum.splits)

lemma errorsUnderI:
  "(\<And>x es e. f x = Inr (Failure es) \<Longrightarrow> e \<in> set es \<Longrightarrow> prefix p (path e)) \<Longrightarrow> errorsUnder p f"
  by (auto simp: errorsUnder_def)

lemma errorsUnderD:
  "errorsUnder p f \<Longrightarrow> f x = Inr (Failure es) \<Longrightarrow> e \<in> set es \<Longrightarrow> prefix p (path e)"
  by (auto simp: errorsUnder_def)

lemma errorsUnder_weaken: "errorsUnder (p @ q) f \<Longrightarrow> errorsUnder p f"
  by (auto simp: errorsUnder_def intro: append_prefixD)

lemma errorsUnder_basic: "errorsUnder p (basic t err p d)"
  by (auto simp: errorsUnder_def basic_def ok_def fail_def split: sum.splits if_splits)

lemma errorsUnder_compileBasic: "errorsUnder p (compileBasic tn b p)"
  by (cases b) (simp_all add: errorsUnder_basic)

lemma path_under: "path (under e p) = p @ path e"
  by (cases e) simp

lemma errorsUnder_compileFunction: "errorsUnder p (compileFunction fn p)"
proof (rule errorsUnderI)
  fix x es e
  assume f: "compileFunction fn p x = Inr (Failure es)" and e: "e \<in> set es"
  show "prefix p (path e)"
  proof (cases "fn x")
    case (ReturnsResult r)
    show ?thesis
    proof (cases p)
      case Nil
      then show ?thesis by simp
    next
      case (Cons a q)
      with ReturnsResult f obtain es' where "r = Failure es'" and "es = map (\<lambda>e. under e p) es'"
        by (cases r) (auto simp: compileFunction_def)
      with e show ?thesis by (auto simp: path_under)
    qed
  qed (use f e in \<open>auto simp: compileFunction_def fail_def\<close>)
qed

lemma errorsUnder_compilePredicate:
  "compilePredicate fn err d p = Inr f \<Longrightarrow> errorsUnder p f"
  by (auto simp: compilePredicate_def errorsUnder_def ok_def fail_def split: if_splits sum.splits)

lemma errorsUnder_compileEnum: "compileEnum os p = Inr f \<Longrightarrow> errorsUnder p f"
  by (auto simp: compileEnum_def Let_def errorsUnder_basic split: if_splits)

lemma errorsUnder_optionalCheck: "errorsUnder p v \<Longrightarrow> errorsUnder p (optionalCheck r v)"
  by (auto simp: errorsUnder_def optionalCheck_def ok_def split: if_splits)

lemma gather_errors:
  "gather rs = Failure es \<Longrightarrow> e \<in> set es \<Longrightarrow> \<exists>r \<in> set rs. e \<in> set (resultErrors r)"
  by (auto simp: gather_def Let_def split: if_splits)

lemma mapResult_Failure: "mapResult r h = Failure es \<longleftrightarrow> r = Failure es"
  by (cases r) auto

lemma resultErrors_mapResult: "resultErrors (mapResult r h) = resultErrors r"
  by (cases r) auto

lemma errorsUnder_objectCheck:
  assumes "\<forall>(k, g) \<in> set pvs. errorsUnder (extendPath p (PStr k)) g"
  shows "errorsUnder p (objectCheck expected required pvs p)"
proof (rule errorsUnderI)
  fix x es e
  assume f: "objectCheck expected required pvs p x = Inr (Failure es)" and e: "e \<in> set es"
  let ?h = "\<lambda>(k, v). case v (getProp x k) of Inl e \<Rightarrow> Inl e
                                 | Inr r \<Rightarrow> Inr (mapResult r (\<lambda>y. VArr [VStr k, y]))"
  from f consider (own) "es = [VError p (message (hd es)) (details (hd es))]"
    | (fields) rs where "mapE ?h pvs = Inr rs" "gather rs = Failure es"
    by (auto simp: objectCheck_def Let_def fail_def mapResult_Failure
             split: sum.splits if_splits)
  then show "prefix p (path e)"
  proof cases
    case own
    with e have "e = VError p (message (hd es)) (details (hd es))"
      by (metis empty_iff empty_set set_ConsD)
    then show ?thesis by (metis VError.sel(1) prefix_order.order_refl)
  next
    case fields
    from gather_errors [OF fields(2) e] obtain r where r: "r \<in> set rs" "e \<in> set (resultErrors r)"
      by blast
    from mapE_member [OF fields(1) r(1)] obtain kg where kg: "kg \<in> set pvs" "?h kg = Inr r"
      by blast
    obtain k g where kg2: "kg = (k, g)" by (cases kg)
    with kg(2) obtain r' where r': "g (getProp x k) = Inr r'" "r = mapResult r' (\<lambda>y. VArr [VStr k, y])"
      by (auto split: sum.splits)
    with r(2) have "e \<in> set (resultErrors r')" by (simp add: resultErrors_mapResult)
    then obtain es' where "r' = Failure es'" "e \<in> set es'" by (cases r') auto
    moreover from assms kg(1) kg2 have "errorsUnder (extendPath p (PStr k)) g" by auto
    ultimately have "prefix (extendPath p (PStr k)) (path e)"
      using r'(1) by (auto dest: errorsUnderD)
    then show ?thesis by (auto simp: extendPath_def intro: append_prefixD)
  qed
qed

lemma errorsUnder_indexedCheck:
  assumes "\<forall>(ix, g) \<in> set (enumerate 0 gs). errorsUnder (extendPath p (PNum (Fin (of_nat ix)))) g"
  shows "errorsUnder p (indexedCheck n gs err p)"
proof (rule errorsUnderI)
  fix x es e
  assume f: "indexedCheck n gs err p x = Inr (Failure es)" and e: "e \<in> set es"
  let ?h = "\<lambda>(ix, v). v (getIndex x ix)"
  from f consider (own) d where "es = [VError p err d]"
    | (entries) rs where "mapE ?h (enumerate 0 gs) = Inr rs" "gather rs = Failure es"
    by (auto simp: indexedCheck_def fail_def split: sum.splits if_splits)
  then show "prefix p (path e)"
  proof cases
    case own
    with e show ?thesis by simp
  next
    case entries
    from gather_errors [OF entries(2) e] obtain r where r: "r \<in> set rs" "e \<in> set (resultErrors r)"
      by blast
    from mapE_member [OF entries(1) r(1)] obtain ig where ig: "ig \<in> set (enumerate 0 gs)" "?h ig = Inr r"
      by blast
    obtain ix g where ig2: "ig = (ix, g)" by (cases ig)
    from r(2) obtain es' where "r = Failure es'" "e \<in> set es'" by (cases r) auto
    moreover from assms ig(1) ig2 have "errorsUnder (extendPath p (PNum (Fin (of_nat ix)))) g" by auto
    ultimately have "prefix (extendPath p (PNum (Fin (of_nat ix)))) (path e)"
      using ig(2) ig2 by (auto dest: errorsUnderD)
    then show ?thesis by (auto simp: extendPath_def intro: append_prefixD)
  qed
qed

lemma oneOfLoop_errors:
  "oneOfLoop vs x acc = Inr (Failure es) \<Longrightarrow> e \<in> set es \<Longrightarrow>
   e \<in> set acc \<or> (\<exists>v \<in> set vs. \<exists>es'. v x = Inr (Failure es') \<and> e \<in> set es')"
proof (induction vs arbitrary: acc)
  case Nil
  then show ?case by simp
next
  case (Cons v vs)
  show ?case
  proof (cases "v x")
    case (Inl a)
    with Cons.prems show ?thesis by simp
  next
    case (Inr r)
    show ?thesis
    proof (cases r)
      case (Success y)
      with Inr Cons.prems show ?thesis by simp
    next
      case (Failure es')
      with Inr Cons.prems have "oneOfLoop vs x (acc @ es') = Inr (Failure es)" by simp
      from Cons.IH [OF this Cons.prems(2)] Inr Failure show ?thesis by auto
    qed
  qed
qed

lemma errorsUnder_oneOfCheck:
  assumes "\<forall>v \<in> set vs. errorsUnder p v"
  shows "errorsUnder p (oneOfCheck vs)"
proof (rule errorsUnderI)
  fix x es e
  assume "oneOfCheck vs x = Inr (Failure es)" and e: "e \<in> set es"
  then have "oneOfLoop vs x [] = Inr (Failure es)" by (simp add: oneOfCheck_def)
  from oneOfLoop_errors [OF this e] assms show "prefix p (path e)"
    by (auto dest: errorsUnderD)
qed

lemma threadSteps_errors:
  "threadSteps fs x = Inr (Failure es) \<Longrightarrow> \<exists>g \<in> set fs. \<exists>y. g y = Inr (Failure es)"
  by (induction fs arbitrary: x) (auto split: sum.splits Result.splits)

lemma errorsUnder_chainCheck:
  assumes "\<forall>g \<in> set fs. errorsUnder p g"
  shows "errorsUnder p (chainCheck fs)"
proof (rule errorsUnderI)
  fix x es e
  assume "chainCheck fs x = Inr (Failure es)" and e: "e \<in> set es"
  then have "threadSteps fs x = Inr (Failure es)" by (simp add: chainCheck_thread)
  from threadSteps_errors [OF this] assms e show "prefix p (path e)"
    by (auto dest: errorsUnderD)
qed

lemma errorsUnder_compile_all:
  "\<forall>f. compile tn v p = Inr f \<longrightarrow> errorsUnder p f"
  "\<forall>f. compileChain tn vs p = Inr f \<longrightarrow> errorsUnder p f"
  "\<forall>f. compileStep tn s p = Inr f \<longrightarrow> errorsUnder p f"
  "\<forall>f. compileOptional tn inner fb p = Inr f \<longrightarrow> errorsUnder p f"
  "\<forall>f. compileObject tn fs p = Inr f \<longrightarrow> errorsUnder p f"
  "\<forall>f. compileIndexed tn es p = Inr f \<longrightarrow> errorsUnder p f"
  "\<forall>f. compileOneOf tn bs p = Inr f \<longrightarrow> errorsUnder p f"
proof (induction tn v p and tn vs p and tn s p and tn inner fb p and tn fs p and tn es p and tn bs p
       rule: compile_compileChain_compileStep_compileOptional_compileObject_compileIndexed_compileOneOf.induct)
  case (1 tn input p)
  show ?case
  proof (intro allI impI)
    fix f assume c: "compile tn input p = Inr f"
    show "errorsUnder p f"
    proof (cases "isChain input")
      case True
      then obtain zs where "input = Chain zs" by (cases input) auto
      with c "1.IH"(9) show ?thesis by (simp add: compile_Chain)
    next
      case False
      with c obtain u where u: "checkStart input p = Inr u" and s: "compileStep tn input p = Inr f"
        by (auto simp: compile_step split: sum.splits)
      from False u s "1.IH"(1-8) show ?thesis by (cases input) auto
    qed
  qed
next
  case (2 tn vs p)
  show ?case
  proof (intro allI impI)
    fix f assume c: "compileChain tn vs p = Inr f"
    then have ne: "length vs \<noteq> 0" by (auto simp: compileChain.simps)
    from c obtain u where u: "checkStart (hd vs) p = Inr u"
      by (auto simp: compileChain.simps split: sum.splits if_splits)
    show "errorsUnder p f"
    proof (cases "length vs = 1")
      case True
      with c u ne have "compileStep tn (hd vs) p = Inr f"
        by (auto simp: compileChain.simps split: sum.splits if_splits)
      with "2.IH"(1) [OF ne u True] show ?thesis by simp
    next
      case False
      with c u ne obtain typed u' fs where t: "typedSteps vs p = Inr typed"
        and a: "checkAdjacent (mergeGroups (groupSteps typed)) p = Inr u'"
        and m: "mapE (\<lambda>v. compileStep tn v p) (mergeGroups (groupSteps typed)) = Inr fs"
        and f: "f = chainCheck fs"
        by (auto simp: compileChain.simps Let_def split: sum.splits if_splits)
      have "\<forall>g \<in> set fs. errorsUnder p g"
      proof
        fix g assume "g \<in> set fs"
        from mapE_member [OF m this] obtain s where s: "s \<in> set (mergeGroups (groupSteps typed))"
          and g: "compileStep tn s p = Inr g" by blast
        from "2.IH"(2) [OF ne u False t refl a s] g show "errorsUnder p g" by simp
      qed
      with f show ?thesis by (simp add: errorsUnder_chainCheck)
    qed
  qed
next
  case (3 tn v p)
  show ?case
  proof (intro allI impI)
    fix f assume c: "compileStep tn v p = Inr f"
    show "errorsUnder p f"
    proof (cases v)
      case (Basic b)
      with c show ?thesis by (auto simp: compileStep.simps errorsUnder_compileBasic)
    next
      case (Pred fn err d)
      with c show ?thesis by (auto simp: compileStep.simps errorsUnder_compilePredicate)
    next
      case (Fn fn)
      with c show ?thesis by (auto simp: compileStep.simps errorsUnder_compileFunction)
    next
      case (Optional i fb)
      with c "3.IH"(1) show ?thesis by (auto simp: compileStep.simps)
    next
      case (Enum os)
      with c show ?thesis by (auto simp: compileStep.simps errorsUnder_compileEnum)
    next
      case (Obj fs)
      with c "3.IH"(2) show ?thesis by (auto simp: compileStep.simps)
    next
      case (Indexed es)
      with c "3.IH"(3) show ?thesis by (auto simp: compileStep.simps)
    next
      case (OneOf bs)
      with c "3.IH"(4) show ?thesis by (auto simp: compileStep.simps)
    next
      case (Chain zs)
      with c show ?thesis by (simp add: compileStep.simps)
    qed
  qed
next
  case (4 tn inner fallback p)
  then show ?case
    by (auto simp: compileOptional.simps errorsUnder_optionalCheck split: sum.splits if_splits)
next
  case (5 tn fs p)
  show ?case
  proof (intro allI impI)
    fix f assume c: "compileObject tn fs p = Inr f"
    let ?h = "\<lambda>(k, v). case compile tn v (extendPath p (PStr k)) of
                                 Inl e \<Rightarrow> Inl e | Inr f \<Rightarrow> Inr (k, f)"
    from c obtain required pvs where r: "requiredKeysOf fs p = Inr required"
      and m: "mapE ?h fs = Inr pvs" and f: "f = objectCheck (map fst fs) required pvs p"
      by (auto simp: compileObject.simps Let_def split: sum.splits)
    have "\<forall>(k, g) \<in> set pvs. errorsUnder (extendPath p (PStr k)) g"
    proof (clarify)
      fix k g assume "(k, g) \<in> set pvs"
      from mapE_member [OF m this] obtain kv where kv: "kv \<in> set fs" and h: "?h kv = Inr (k, g)"
        by blast
      obtain k' v where kv2: "kv = (k', v)" by (cases kv)
      with h have "k' = k" and "compile tn v (extendPath p (PStr k)) = Inr g"
        by (auto split: sum.splits)
      with "5.IH" [OF refl r kv] kv2 show "errorsUnder (extendPath p (PStr k)) g" by auto
    qed
    with f show "errorsUnder p f" by (simp add: errorsUnder_objectCheck)
  qed
next
  case (6 tn entries p)
  show ?case
  proof (intro allI impI)
    fix f assume c: "compileIndexed tn entries p = Inr f"
    let ?h = "\<lambda>(ix, v). compile tn v (extendPath p (PNum (Fin (of_nat ix))))"
    from c obtain gs where m: "mapE ?h (enumerate 0 entries) = Inr gs"
      and f: "f = indexedCheck (length entries) gs (indexedErr (length entries)) p"
      by (auto simp: compileIndexed.simps Let_def split: sum.splits)
    from mapE_all2 [OF m] have all2: "list_all2 (\<lambda>iv g. ?h iv = Inr g) (enumerate 0 entries) gs" .
    have "\<forall>(ix, g) \<in> set (enumerate 0 gs). errorsUnder (extendPath p (PNum (Fin (of_nat ix)))) g"
    proof (clarify)
      fix ix g assume "(ix, g) \<in> set (enumerate 0 gs)"
      then have ix: "ix < length gs" and g: "g = gs ! ix" by (auto simp: in_set_enumerate_eq)
      from all2 have len: "length gs = length entries" by (auto dest: list_all2_lengthD)
      from all2 ix len have "?h (enumerate 0 entries ! ix) = Inr g"
        unfolding g by (auto simp: list_all2_conv_all_nth)
      with ix len have cg: "compile tn (entries ! ix) (extendPath p (PNum (Fin (of_nat ix)))) = Inr g"
        by (simp add: nth_enumerate_eq)
      from ix len have "(ix, entries ! ix) \<in> set (enumerate 0 entries)"
        by (auto simp: in_set_enumerate_eq)
      from "6.IH" [OF refl this refl] cg
      show "errorsUnder (extendPath p (PNum (Fin (of_nat ix)))) g" by simp
    qed
    with f show "errorsUnder p f" by (simp add: errorsUnder_indexedCheck)
  qed
next
  case (7 tn branches p)
  show ?case
  proof (intro allI impI)
    fix f assume c: "compileOneOf tn branches p = Inr f"
    let ?h = "\<lambda>(ix, v). compile tn v (extendPath p (PStr (''Branch '' @ showNat ix)))"
    from c obtain gs where m: "mapE ?h (enumerate 0 branches) = Inr gs" and f: "f = oneOfCheck gs"
      by (auto simp: compileOneOf.simps split: sum.splits)
    have "\<forall>g \<in> set gs. errorsUnder p g"
    proof
      fix g assume "g \<in> set gs"
      from mapE_member [OF m this] obtain iv where iv: "iv \<in> set (enumerate 0 branches)"
        and h: "?h iv = Inr g" by blast
      obtain ix v where iv2: "iv = (ix, v)" by (cases iv)
      from "7.IH" [OF iv iv2 [symmetric]] h iv2
      have "errorsUnder (extendPath p (PStr (''Branch '' @ showNat ix))) g" by simp
      then show "errorsUnder p g" unfolding extendPath_def by (rule errorsUnder_weaken)
    qed
    with f show "errorsUnder p f" by (simp add: errorsUnder_oneOfCheck)
  qed
qed

section \<open>The branches of a oneOf step\<close>

lemmas show_eval = showNat.simps digitChar_def digits_def branchPath_def

lemma errorsUnder_compile: "compile tn v p = Inr f \<Longrightarrow> errorsUnder p f"
  using errorsUnder_compile_all(1) by blast

lemma oneOfLoop_all_fail:
  "\<forall>v \<in> set vs. \<exists>es. v x = Inr (Failure es) \<Longrightarrow>
   oneOfLoop vs x acc = Inr (Failure (acc @ concat (map (\<lambda>v. outcomeErrors (v x)) vs)))"
  by (induction vs arbitrary: acc) auto

lemma oneOfLoop_first_success:
  "\<forall>v \<in> set pre. \<exists>es. v x = Inr (Failure es) \<Longrightarrow> v x = Inr (Success y) \<Longrightarrow>
   oneOfLoop (pre @ v # post) x acc = Inr (Success y)"
  by (induction pre arbitrary: acc) auto

lemma compile_OneOf: "compile tn (OneOf bs) p = compileOneOf tn bs p"
  by (simp add: compile.simps compileStep.simps checkStart_def)

text \<open>
  Claim C4. The check compiled from a oneOf step tries the branches in declared order. The
  first success is returned unchanged. If every branch fails, the result is the failure
  whose errors are the errors of all branches, concatenated in branch order. Branch \<open>i\<close> is
  compiled under the path extended by the label \<^verbatim>\<open>Branch i\<close>, and every error it reports
  lies at or below that path.
\<close>

theorem oneOf_first_success_or_all_errors:
  "compile tn (OneOf bs) p = Inr f \<longrightarrow>
     (\<exists>vs. length vs = length bs
        \<and> (\<forall>i<length bs. compile tn (bs ! i) (branchPath p i) = Inr (vs ! i))
        \<and> (\<forall>x i y. i < length vs \<and> (\<forall>j<i. \<exists>es. (vs ! j) x = Inr (Failure es))
                    \<and> (vs ! i) x = Inr (Success y)
               \<longrightarrow> f x = Inr (Success y))
        \<and> (\<forall>x. (\<forall>i<length vs. \<exists>es. (vs ! i) x = Inr (Failure es))
               \<longrightarrow> f x = Inr (Failure (concat (map (\<lambda>v. outcomeErrors (v x)) vs))))
        \<and> (\<forall>x i es e. i < length vs \<and> (vs ! i) x = Inr (Failure es) \<and> e \<in> set es
               \<longrightarrow> prefix (branchPath p i) (path e)))"
proof
  assume c: "compile tn (OneOf bs) p = Inr f"
  let ?h = "\<lambda>(ix, v). compile tn v (extendPath p (PStr (''Branch '' @ showNat ix)))"
  from c obtain vs where m: "mapE ?h (enumerate 0 bs) = Inr vs" and f: "f = oneOfCheck vs"
    by (auto simp: compile_OneOf compileOneOf.simps split: sum.splits)
  from mapE_all2 [OF m] have all2: "list_all2 (\<lambda>iv g. ?h iv = Inr g) (enumerate 0 bs) vs" .
  then have len: "length vs = length bs" by (auto dest: list_all2_lengthD)
  have branch: "compile tn (bs ! i) (branchPath p i) = Inr (vs ! i)" if "i < length bs" for i
  proof -
    from all2 that have "?h (enumerate 0 bs ! i) = Inr (vs ! i)"
      by (auto simp: list_all2_conv_all_nth)
    with that show ?thesis by (simp add: nth_enumerate_eq branchPath_def)
  qed
  have first: "f x = Inr (Success y)"
    if "i < length vs" "\<forall>j<i. \<exists>es. (vs ! j) x = Inr (Failure es)" "(vs ! i) x = Inr (Success y)"
    for x i y
  proof -
    from that(1) have split: "vs = take i vs @ vs ! i # drop (Suc i) vs"
      by (rule id_take_nth_drop)
    have "\<forall>v \<in> set (take i vs). \<exists>es. v x = Inr (Failure es)"
      using that(1,2) by (auto simp: in_set_conv_nth)
    with that(3) have "oneOfLoop (take i vs @ vs ! i # drop (Suc i) vs) x [] = Inr (Success y)"
      using oneOfLoop_first_success [of "take i vs" x "vs ! i" y "drop (Suc i) vs" "[]"] by blast
    with split f show ?thesis by (simp add: oneOfCheck_def)
  qed
  have allfail: "f x = Inr (Failure (concat (map (\<lambda>v. outcomeErrors (v x)) vs)))"
    if "\<forall>i<length vs. \<exists>es. (vs ! i) x = Inr (Failure es)" for x
  proof -
    from that have "\<forall>v \<in> set vs. \<exists>es. v x = Inr (Failure es)"
      by (auto simp: in_set_conv_nth)
    from oneOfLoop_all_fail [OF this, of "[]"] f show ?thesis by (simp add: oneOfCheck_def)
  qed
  have paths: "prefix (branchPath p i) (path e)"
    if "i < length vs" "(vs ! i) x = Inr (Failure es)" "e \<in> set es" for x i es e
  proof -
    from that(1) len have "compile tn (bs ! i) (branchPath p i) = Inr (vs ! i)"
      by (simp add: branch)
    then have "errorsUnder (branchPath p i) (vs ! i)" by (rule errorsUnder_compile)
    then show ?thesis using that(2,3) by (rule errorsUnderD)
  qed
  from len branch first allfail paths
  show "\<exists>vs. length vs = length bs
        \<and> (\<forall>i<length bs. compile tn (bs ! i) (branchPath p i) = Inr (vs ! i))
        \<and> (\<forall>x i y. i < length vs \<and> (\<forall>j<i. \<exists>es. (vs ! j) x = Inr (Failure es))
                    \<and> (vs ! i) x = Inr (Success y)
               \<longrightarrow> f x = Inr (Success y))
        \<and> (\<forall>x. (\<forall>i<length vs. \<exists>es. (vs ! i) x = Inr (Failure es))
               \<longrightarrow> f x = Inr (Failure (concat (map (\<lambda>v. outcomeErrors (v x)) vs))))
        \<and> (\<forall>x i es e. i < length vs \<and> (vs ! i) x = Inr (Failure es) \<and> e \<in> set es
               \<longrightarrow> prefix (branchPath p i) (path e))"
    by (intro exI [of _ vs] conjI allI impI) blast+
qed

theorem oneOf_first_success_or_all_errors_witness:
  "compile (\<lambda>v. NaN) (OneOf [Basic BString, Basic BNumber]) []
     = Inr (oneOfCheck [compileBasic (\<lambda>v. NaN) BString [PStr ''Branch 0''],
                        compileBasic (\<lambda>v. NaN) BNumber [PStr ''Branch 1'']])
   \<and> applyCompiled (compile (\<lambda>v. NaN) (OneOf [Basic BString, Basic BNumber]) []) (VBool True)
       = Inr (Inr (Failure [VError [PStr ''Branch 0''] ''Not a string'' None,
                            VError [PStr ''Branch 1''] ''Not a number'' None]))
   \<and> applyCompiled (compile (\<lambda>v. NaN) (OneOf [Basic BString, Basic BNumber]) []) (VNum (Fin 3))
       = Inr (Inr (Success (VNum (Fin 3))))
   \<and> branchPath [] 1 = [PStr ''Branch 1'']"
  using oneOf_first_success_or_all_errors [of "\<lambda>v. NaN" "[Basic BString, Basic BNumber]" "[]"
      "oneOfCheck [compileBasic (\<lambda>v. NaN) BString [PStr ''Branch 0''],
                   compileBasic (\<lambda>v. NaN) BNumber [PStr ''Branch 1'']]"]
  by (simp add: compile_eval show_eval)

section \<open>The order of the checks of an object step\<close>














end
